theory Spec2Isabelle
  imports Complex_Main "HOL-Library.Monad_Syntax" "HOL-Library.Word"
begin

section \<open>Conventions of the embedding\<close>

text \<open>
  The engine of \<^verbatim>\<open>src/src/model.cc\<close> (class \<^verbatim>\<open>Model\<close>) is embedded function by function.

  \<^item> The C++ type \<^verbatim>\<open>real\<close> (a binary float) is read as a real number: arithmetic is exact.
    Where a float operation leaves the real numbers (a division by zero, the square root
    of a negative number) the model has no value and returns \<open>None\<close>.
  \<^item> The one exception is \<^verbatim>\<open>initTableNegatives\<close>, where a float decides how often a loop
    runs: there every operation rounds as the program does, to 24 significant bits for a
    \<^verbatim>\<open>float\<close> and to 53 for a \<^verbatim>\<open>double\<close>.
  \<^item> \<^verbatim>\<open>int32_t\<close> indices are \<open>int\<close>; a read or write outside an array, a failed
    \<^verbatim>\<open>assert\<close>, an \<^verbatim>\<open>at()\<close> that throws and a loop that never ends are \<open>None\<close> as well.
  \<^item> The 64-bit counts of the Huffman tree are \<open>64 word\<close>, compared as signed values.
  \<^item> A method that mutates the engine takes the engine state and returns the new one.
\<close>

type_synonym Vector = "real list"
type_synonym Matrix = "real list list"

section \<open>Checked array access\<close>

definition nth_chk :: "'a list \<Rightarrow> int \<Rightarrow> 'a option" where
  "nth_chk xs i = (if 0 \<le> i \<and> i < int (length xs) then Some (xs ! nat i) else None)"

definition upd_chk :: "'a list \<Rightarrow> int \<Rightarrow> 'a \<Rightarrow> 'a list option" where
  "upd_chk xs i v = (if 0 \<le> i \<and> i < int (length xs) then Some (xs[nat i := v]) else None)"

definition fdiv :: "real \<Rightarrow> real \<Rightarrow> real option" where
  "fdiv x y = (if y = 0 then None else Some (x / y))"

definition trunc :: "real \<Rightarrow> int" where
  \<comment> \<open>the conversion \<^verbatim>\<open>int(x)\<close>: rounding towards zero\<close>
  "trunc x = (if 0 \<le> x then \<lfloor>x\<rfloor> else \<lceil>x\<rceil>)"

section \<open>Numeric primitives\<close>

text \<open>
  Modelled from the spec: the bodies of \<^verbatim>\<open>Vector\<close> and \<^verbatim>\<open>Matrix\<close> (vector.cc, matrix.h,
  matrix.cc) are not among the sources; only the declarations of vector.h are. The
  operations below follow section 4.1 of the specification: zero-fill, scalar multiply,
  \<open>v += \<alpha> \<cdot> M[r]\<close>, \<open>v = M \<cdot> u\<close>, dot product, \<open>dotRow(v, r) = \<langle>M[r], v\<rangle>\<close>,
  \<open>addRow(v, r, \<alpha>): M[r] += \<alpha> \<cdot> v\<close> and element access. A matrix is the list of its rows.
\<close>

definition Vector_zero :: "Vector \<Rightarrow> Vector" where
  \<comment> \<open>Modelled from the spec: \<^verbatim>\<open>Vector::zero\<close> (vector.cc, absent), zero-fill.\<close>
  "Vector_zero v = map (\<lambda>_. 0) v"

definition Vector_mul :: "Vector \<Rightarrow> real \<Rightarrow> Vector" where
  \<comment> \<open>Modelled from the spec: \<^verbatim>\<open>Vector::mul(real)\<close> (vector.cc, absent), scalar multiply in place.\<close>
  "Vector_mul v a = map (\<lambda>x. x * a) v"

definition Vector_dot :: "Vector \<Rightarrow> Vector \<Rightarrow> real option" where
  \<comment> \<open>Modelled from the spec: \<^verbatim>\<open>Vector::dot\<close> (vector.cc, absent), dot product of two vectors of one length.\<close>
  "Vector_dot v u =
     (if length v = length u then Some (sum_list (map2 (*) v u)) else None)"

definition Vector_addRow :: "Vector \<Rightarrow> Matrix \<Rightarrow> int \<Rightarrow> real \<Rightarrow> Vector option" where
  \<comment> \<open>Modelled from the spec: \<^verbatim>\<open>Vector::addRow\<close> (vector.cc, absent), \<open>v += a \<cdot> M[r]\<close>; the overload
      without a scale is the case \<open>a = 1\<close>.\<close>
  "Vector_addRow v M r a =
     do { row \<leftarrow> nth_chk M r;
          if length row = length v then Some (map2 (\<lambda>x y. x + a * y) v row) else None }"

definition Vector_mulMat :: "Vector \<Rightarrow> Matrix \<Rightarrow> Vector \<Rightarrow> Vector option" where
  \<comment> \<open>Modelled from the spec: \<^verbatim>\<open>Vector::mul(Matrix, Vector)\<close> (vector.cc, absent), \<open>v = M \<cdot> u\<close> with
      \<open>dim v = rows M\<close> and \<open>dim u = cols M\<close>.\<close>
  "Vector_mulMat v M u =
     (if length v = length M \<and> (\<forall>row \<in> set M. length row = length u)
      then Some (map (\<lambda>row. sum_list (map2 (*) row u)) M) else None)"

definition Matrix_dotRow :: "Matrix \<Rightarrow> Vector \<Rightarrow> int \<Rightarrow> real option" where
  \<comment> \<open>Modelled from the spec: \<^verbatim>\<open>Matrix::dotRow\<close> (matrix.cc, absent), \<open>\<langle>M[r], v\<rangle>\<close>.\<close>
  "Matrix_dotRow M v r =
     do { row \<leftarrow> nth_chk M r;
          if length row = length v then Some (sum_list (map2 (*) row v)) else None }"

definition Matrix_addRow :: "Matrix \<Rightarrow> Vector \<Rightarrow> int \<Rightarrow> real \<Rightarrow> Matrix option" where
  \<comment> \<open>Modelled from the spec: \<^verbatim>\<open>Matrix::addRow\<close> (matrix.cc, absent), \<open>M[r] += a \<cdot> v\<close>.\<close>
  "Matrix_addRow M v r a =
     do { row \<leftarrow> nth_chk M r;
          if length row = length v
          then upd_chk M r (map2 (\<lambda>x y. x + a * y) row v) else None }"

definition Matrix_at :: "Matrix \<Rightarrow> int \<Rightarrow> int \<Rightarrow> real option" where
  \<comment> \<open>Modelled from the spec: element access \<^verbatim>\<open>M(i, j)\<close> (matrix.h, absent), read.\<close>
  "Matrix_at M i j = do { row \<leftarrow> nth_chk M i; nth_chk row j }"

definition Matrix_add_at :: "Matrix \<Rightarrow> int \<Rightarrow> int \<Rightarrow> real \<Rightarrow> Matrix option" where
  \<comment> \<open>Modelled from the spec: element access \<^verbatim>\<open>M(i, j) += g\<close> (matrix.h, absent).\<close>
  "Matrix_add_at M i j g =
     do { row \<leftarrow> nth_chk M i;
          x \<leftarrow> nth_chk row j;
          row' \<leftarrow> upd_chk row j (x + g);
          upd_chk M i row' }"

definition Vector_add_at :: "Vector \<Rightarrow> int \<Rightarrow> real \<Rightarrow> Vector option" where
  \<comment> \<open>Modelled from the spec: element access \<^verbatim>\<open>v[j] += g\<close> (vector.cc, absent).\<close>
  "Vector_add_at v j g = do { x \<leftarrow> nth_chk v j; upd_chk v j (x + g) }"

section \<open>Engine state\<close>

text \<open>
  Modelled from the spec: \<^verbatim>\<open>Args\<close>, the enumerations \<^verbatim>\<open>loss_name\<close> and \<^verbatim>\<open>model_name\<close>, the
  tree node and the members of \<^verbatim>\<open>Model\<close> are declared in args.h and model.h, which are
  not among the sources. The fields are those that model.cc reads and writes, named as
  in section 3 of the specification; the count of a node is a 64-bit integer, as the
  counts it is assigned from. The model constants
  \<^verbatim>\<open>SIGMOID_TABLE_SIZE\<close>, \<^verbatim>\<open>MAX_SIGMOID\<close>, \<^verbatim>\<open>LOG_TABLE_SIZE\<close> and \<^verbatim>\<open>NEGATIVE_TABLE_SIZE\<close>
  are macros of model.h; they are parameters here. The members \<^verbatim>\<open>wi_\<close>, \<^verbatim>\<open>wo_\<close>, ...
  are written without the trailing underscore, \<^verbatim>\<open>output_\<close> is \<open>output_vec\<close> and \<^verbatim>\<open>loss_\<close>
  is \<open>loss_sum\<close>. Of the values of \<^verbatim>\<open>model_name\<close>, model.cc only tests for \<open>sup\<close>; \<open>unsup\<close>
  stands for every other one.
\<close>

datatype loss_name = hs | ns | softmax

datatype model_name = sup | unsup

record Args =
  dim :: int
  loss :: loss_name
  model :: model_name
  neg :: int

record Constants =
  SIGMOID_TABLE_SIZE :: int
  MAX_SIGMOID :: int
  LOG_TABLE_SIZE :: int
  NEGATIVE_TABLE_SIZE :: int

record Node =
  parent :: int
  left :: int
  right :: int
  count :: "64 word"
  binary :: bool

record Model =
  wi :: Matrix
  wo :: Matrix
  attn :: Matrix
  bias :: Vector
  args :: Args
  hidden :: Vector
  output_vec :: Vector
  grad :: Vector
  softmaxattn :: "real list"
  hsz :: int
  isz :: int
  osz :: int
  loss_sum :: real
  nexamples :: int
  t_sigmoid :: "real list"
  t_log :: "real list"
  negatives :: "int list"
  negpos :: nat
  paths :: "int list list"
  codes :: "bool list list"
  tree :: "Node list"

section \<open>Math tables\<close>

definition sigmoid_entry :: "Constants \<Rightarrow> nat \<Rightarrow> real" where
  \<comment> \<open>the value \<^verbatim>\<open>initSigmoid\<close> stores at index \<open>i\<close>\<close>
  "sigmoid_entry K i =
     (let x = real_of_int (int i * 2 * MAX_SIGMOID K) / real_of_int (SIGMOID_TABLE_SIZE K)
              - real_of_int (MAX_SIGMOID K)
      in 1 / (1 + exp (- x)))"

definition initSigmoid :: "Constants \<Rightarrow> real list option" where
  "initSigmoid K =
     (if SIGMOID_TABLE_SIZE K = 0 then None
      else Some (map (sigmoid_entry K) [0 ..< nat (SIGMOID_TABLE_SIZE K + 1)]))"

definition log_entry :: "Constants \<Rightarrow> nat \<Rightarrow> real" where
  \<comment> \<open>the value \<^verbatim>\<open>initLog\<close> stores at index \<open>i\<close>\<close>
  "log_entry K i =
     (let x = (real i + 1 / 100000) / real_of_int (LOG_TABLE_SIZE K) in ln x)"

definition initLog :: "Constants \<Rightarrow> real list option" where
  "initLog K =
     (if LOG_TABLE_SIZE K = 0 then None
      else Some (map (log_entry K) [0 ..< nat (LOG_TABLE_SIZE K + 1)]))"

definition log_tab :: "Constants \<Rightarrow> Model \<Rightarrow> real \<Rightarrow> real option" where
  \<comment> \<open>\<^verbatim>\<open>Model::log\<close>\<close>
  "log_tab K st x =
     (if x > 1 then Some 0
      else nth_chk (t_log st) (trunc (x * real_of_int (LOG_TABLE_SIZE K))))"

definition sigmoid :: "Constants \<Rightarrow> Model \<Rightarrow> real \<Rightarrow> real option" where
  "sigmoid K st x =
     (if x < - real_of_int (MAX_SIGMOID K) then Some 0
      else if x > real_of_int (MAX_SIGMOID K) then Some 1
      else do {
        q \<leftarrow> fdiv ((x + real_of_int (MAX_SIGMOID K)) * real_of_int (SIGMOID_TABLE_SIZE K))
                  (real_of_int (MAX_SIGMOID K));
        nth_chk (t_sigmoid st) (trunc (q / 2)) })"

section \<open>Construction\<close>

definition Vector_new :: "(nat \<Rightarrow> real) \<Rightarrow> int \<Rightarrow> Vector" where
  \<comment> \<open>Modelled from the spec: the constructor \<^verbatim>\<open>Vector(int64_t)\<close> is in vector.cc, absent.
      A vector of the given length; what the fresh array holds is the first argument.\<close>
  "Vector_new mem m = map mem [0 ..< nat m]"

definition Model_new ::
  "Constants \<Rightarrow> (nat \<Rightarrow> nat \<Rightarrow> real) \<Rightarrow> Matrix \<Rightarrow> Matrix \<Rightarrow> Matrix \<Rightarrow> Vector \<Rightarrow> Args \<Rightarrow> Model option" where
  \<comment> \<open>the constructor \<^verbatim>\<open>Model::Model\<close>; the random generator seeded here is only used by
      \<^verbatim>\<open>std::shuffle\<close>, whose outcome is an argument of \<open>initTableNegatives\<close>;
      \<open>mem k\<close> is what the \<open>k\<close>-th freshly allocated scratch array holds\<close>
  "Model_new K mem wi0 wo0 attn0 bias0 args0 =
     do { ts \<leftarrow> initSigmoid K;
          tl \<leftarrow> initLog K;
          Some \<lparr> wi = wi0, wo = wo0, attn = attn0, bias = bias0, args = args0,
                 hidden = Vector_new (mem 0) (dim args0),
                 output_vec = Vector_new (mem 1) (int (length wo0)),
                 grad = Vector_new (mem 2) (dim args0),
                 softmaxattn = [],
                 hsz = dim args0, isz = int (length wi0), osz = int (length wo0),
                 loss_sum = 0, nexamples = 1,
                 t_sigmoid = ts, t_log = tl,
                 negatives = [], negpos = 0, paths = [], codes = [], tree = [] \<rparr> }"

definition getLoss :: "Model \<Rightarrow> real option" where
  "getLoss st = fdiv (loss_sum st) (real_of_int (nexamples st))"

section \<open>Negative-sampling cursor\<close>

partial_function (option) getNegative_loop :: "int list \<Rightarrow> nat \<Rightarrow> int \<Rightarrow> (int \<times> nat) option" where
  "getNegative_loop negs pos target =
     (if pos < length negs
      then (let negative = negs ! pos;
                pos' = (pos + 1) mod length negs
            in if target = negative then getNegative_loop negs pos' target
               else Some (negative, pos'))
      else None)"

declare getNegative_loop.simps [code]

definition getNegative :: "Model \<Rightarrow> int \<Rightarrow> (int \<times> Model) option" where
  "getNegative st target =
     do { (negative, pos') \<leftarrow> getNegative_loop (negatives st) (negpos st) target;
          Some (negative, st\<lparr>negpos := pos'\<rparr>) }"

section \<open>Loss kernels\<close>

definition binaryLogistic ::
  "Constants \<Rightarrow> Model \<Rightarrow> int \<Rightarrow> bool \<Rightarrow> real \<Rightarrow> (real \<times> Model) option" where
  "binaryLogistic K st target label lr =
     do { d \<leftarrow> Matrix_dotRow (wo st) (hidden st) target;
          score \<leftarrow> sigmoid K st d;
          let alpha = lr * ((if label then 1 else 0) - score);
          g \<leftarrow> Vector_addRow (grad st) (wo st) target alpha;
          w \<leftarrow> Matrix_addRow (wo st) (hidden st) target alpha;
          let st' = st\<lparr>grad := g, wo := w\<rparr>;
          if label
          then do { l \<leftarrow> log_tab K st' score; Some (- l, st') }
          else do { l \<leftarrow> log_tab K st' (1 - score); Some (- l, st') } }"

function negativeSampling_loop ::
  "Constants \<Rightarrow> int \<Rightarrow> int \<Rightarrow> real \<Rightarrow> int \<Rightarrow> real \<Rightarrow> Model \<Rightarrow> (real \<times> Model) option" where
  "negativeSampling_loop K ng target lr n acc st =
     (if n \<le> ng
      then (if n = 0
            then do { (l, st') \<leftarrow> binaryLogistic K st target True lr;
                      negativeSampling_loop K ng target lr (n + 1) (acc + l) st' }
            else do { (negative, st1) \<leftarrow> getNegative st target;
                      (l, st') \<leftarrow> binaryLogistic K st1 negative False lr;
                      negativeSampling_loop K ng target lr (n + 1) (acc + l) st' })
      else Some (acc, st))"
  by pat_completeness auto
termination
  by (relation "measure (\<lambda>(K, ng, target, lr, n, acc, st). nat (ng + 1 - n))") auto

declare negativeSampling_loop.simps [simp del]

definition negativeSampling :: "Constants \<Rightarrow> Model \<Rightarrow> int \<Rightarrow> real \<Rightarrow> (real \<times> Model) option" where
  "negativeSampling K st target lr =
     negativeSampling_loop K (neg (args st)) target lr 0 0 (st\<lparr>grad := Vector_zero (grad st)\<rparr>)"

fun hierarchicalSoftmax_loop ::
  "Constants \<Rightarrow> real \<Rightarrow> int list \<Rightarrow> bool list \<Rightarrow> real \<Rightarrow> Model \<Rightarrow> (real \<times> Model) option" where
  "hierarchicalSoftmax_loop K lr [] binaryCode acc st = Some (acc, st)"
| "hierarchicalSoftmax_loop K lr (p # pathToRoot) [] acc st = None"
| "hierarchicalSoftmax_loop K lr (p # pathToRoot) (b # binaryCode) acc st =
     do { (l, st') \<leftarrow> binaryLogistic K st p b lr;
          hierarchicalSoftmax_loop K lr pathToRoot binaryCode (acc + l) st' }"

definition hierarchicalSoftmax :: "Constants \<Rightarrow> Model \<Rightarrow> int \<Rightarrow> real \<Rightarrow> (real \<times> Model) option" where
  "hierarchicalSoftmax K st target lr =
     do { binaryCode \<leftarrow> nth_chk (codes st) target;
          pathToRoot \<leftarrow> nth_chk (paths st) target;
          hierarchicalSoftmax_loop K lr pathToRoot binaryCode 0
            (st\<lparr>grad := Vector_zero (grad st)\<rparr>) }"

definition computeOutputSoftmax :: "Model \<Rightarrow> Vector \<Rightarrow> Vector \<Rightarrow> Vector option" where
  \<comment> \<open>the two-argument overload; the result is the new contents of its second argument\<close>
  "computeOutputSoftmax st hid out =
     do { out1 \<leftarrow> Vector_mulMat out (wo st) hid;
          max0 \<leftarrow> nth_chk out1 0;
          if int (length out1) < osz st then None
          else do {
            let n = nat (osz st);
            let mx = fold (\<lambda>x m. max x m) (take n out1) max0;
            let exps = map (\<lambda>x. exp (x - mx)) (take n out1);
            let z = fold (\<lambda>e s. s + e) exps 0;
            if n = 0 then Some out1
            else if z = 0 then None
            else Some (map (\<lambda>e. e / z) exps @ drop n out1) } }"

fun softmax_loop :: "int \<Rightarrow> real \<Rightarrow> int list \<Rightarrow> Model \<Rightarrow> Model option" where
  "softmax_loop target lr [] st = Some st"
| "softmax_loop target lr (i # is) st =
     do { oi \<leftarrow> nth_chk (output_vec st) i;
          let label = (if i = target then 1 else 0);
          let alpha = lr * (label - oi);
          g \<leftarrow> Vector_addRow (grad st) (wo st) i alpha;
          w \<leftarrow> Matrix_addRow (wo st) (hidden st) i alpha;
          softmax_loop target lr is (st\<lparr>grad := g, wo := w\<rparr>) }"

definition softmax_kernel :: "Constants \<Rightarrow> Model \<Rightarrow> int \<Rightarrow> real \<Rightarrow> (real \<times> Model) option" where
  \<comment> \<open>\<^verbatim>\<open>Model::softmax\<close>\<close>
  "softmax_kernel K st target lr =
     do { out \<leftarrow> computeOutputSoftmax st (hidden st) (output_vec st);
          st' \<leftarrow> softmax_loop target lr [0 .. osz st - 1]
                  (st\<lparr>grad := Vector_zero (grad st), output_vec := out\<rparr>);
          ot \<leftarrow> nth_chk (output_vec st') target;
          l \<leftarrow> log_tab K st' ot;
          Some (- l, st') }"

definition lossKernel :: "Constants \<Rightarrow> Model \<Rightarrow> int \<Rightarrow> real \<Rightarrow> (real \<times> Model) option" where
  \<comment> \<open>the dispatch on \<^verbatim>\<open>args_->loss\<close> that \<^verbatim>\<open>update\<close>, \<^verbatim>\<open>updateAttn\<close> and \<^verbatim>\<open>updateAttn2\<close> repeat\<close>
  "lossKernel K st target lr =
     (if loss (args st) = ns then negativeSampling K st target lr
      else if loss (args st) = hs then hierarchicalSoftmax K st target lr
      else softmax_kernel K st target lr)"

section \<open>Forward pass\<close>

fun addRows :: "Matrix \<Rightarrow> int list \<Rightarrow> Vector \<Rightarrow> Vector option" where
  "addRows M [] h = Some h"
| "addRows M (r # rs) h = do { h' \<leftarrow> Vector_addRow h M r 1; addRows M rs h' }"

definition computeHidden :: "Model \<Rightarrow> int list \<Rightarrow> Vector \<Rightarrow> Vector option" where
  "computeHidden st input hid =
     (if int (length hid) \<noteq> hsz st then None
      else do { h \<leftarrow> addRows (wi st) input (Vector_zero hid);
                a \<leftarrow> fdiv 1 (real (length input));
                Some (Vector_mul h a) })"

fun attention_loop ::
  "Model \<Rightarrow> (int \<times> int) list \<Rightarrow> real \<Rightarrow> real list \<Rightarrow> (real list \<times> real) option" where
  "attention_loop st [] attention_max attention = Some (attention, attention_max)"
| "attention_loop st (p # input) attention_max attention =
     do { a \<leftarrow> Matrix_at (attn st) (fst p) (snd p);
          b \<leftarrow> nth_chk (bias st) (snd p);
          let attention_i = a + b;
          attention_loop st input
            (if attention_i > attention_max then attention_i else attention_max)
            (attention @ [attention_i]) }"

fun attention2_loop ::
  "Model \<Rightarrow> int \<Rightarrow> (int \<times> int) list \<Rightarrow> real \<Rightarrow> real list \<Rightarrow> (real list \<times> real) option" where
  "attention2_loop st target [] attention_max attention = Some (attention, attention_max)"
| "attention2_loop st target (p # input) attention_max attention =
     do { a \<leftarrow> Matrix_at (attn st) target (snd p);
          b \<leftarrow> nth_chk (bias st) (snd p);
          let attention_i = a + b;
          attention2_loop st target input
            (if attention_i > attention_max then attention_i else attention_max)
            (attention @ [attention_i]) }"

fun exp_loop :: "real list \<Rightarrow> real \<Rightarrow> real list \<Rightarrow> real \<Rightarrow> real list \<times> real" where
  "exp_loop [] attention_max sm s = (sm, s)"
| "exp_loop (a # attention) attention_max sm s =
     (let w = (if a - attention_max < - 50 then 0 else exp (a - attention_max))
      in exp_loop attention attention_max (sm @ [w]) (s + w))"

fun normalize_loop :: "real list \<Rightarrow> real \<Rightarrow> real list option" where
  "normalize_loop [] s = Some []"
| "normalize_loop (w # sm) s =
     do { q \<leftarrow> fdiv w s; qs \<leftarrow> normalize_loop sm s; Some (q # qs) }"

fun weighted_rows :: "Matrix \<Rightarrow> (int \<times> int) list \<Rightarrow> real list \<Rightarrow> Vector \<Rightarrow> Vector option" where
  "weighted_rows M [] sm h = Some h"
| "weighted_rows M (p # input) [] h = None"
| "weighted_rows M (p # input) (w # sm) h =
     do { h' \<leftarrow> Vector_addRow h M (fst p) w; weighted_rows M input sm h' }"

definition computeAttnHidden ::
  "Model \<Rightarrow> (int \<times> int) list \<Rightarrow> Vector \<Rightarrow> (Vector \<times> real list) option" where
  \<comment> \<open>the result is the new contents of \<^verbatim>\<open>hidden\<close> and of \<^verbatim>\<open>softmaxattn\<close>\<close>
  "computeAttnHidden st input hid =
     (if int (length hid) \<noteq> hsz st then None
      else do { (attention, attention_max) \<leftarrow> attention_loop st input 0 [];
                let (sm, s) = exp_loop attention attention_max [] 0;
                sm' \<leftarrow> normalize_loop sm s;
                h \<leftarrow> weighted_rows (wi st) input sm' (Vector_zero hid);
                Some (h, sm') })"

definition computeAttnHidden2 ::
  "Model \<Rightarrow> (int \<times> int) list \<Rightarrow> int \<Rightarrow> Vector \<Rightarrow> (Vector \<times> real list) option" where
  "computeAttnHidden2 st input target hid =
     (if int (length hid) \<noteq> hsz st then None
      else do { (attention, attention_max) \<leftarrow> attention2_loop st target input 0 [];
                let (sm, s) = exp_loop attention attention_max [] 0;
                sm' \<leftarrow> normalize_loop sm s;
                h \<leftarrow> weighted_rows (wi st) input sm' (Vector_zero hid);
                Some (h, sm') })"

section \<open>Attention gradient\<close>

fun computeAttnGradient_loop ::
  "Vector \<Rightarrow> real \<Rightarrow> (int \<times> int) list \<Rightarrow> real list \<Rightarrow> Model \<Rightarrow> Model option" where
  "computeAttnGradient_loop gradient n [] sm st = Some st"
| "computeAttnGradient_loop gradient n (p # input) [] st = None"
| "computeAttnGradient_loop gradient n (p # input) (w # sm) st =
     do { d \<leftarrow> Matrix_dotRow (wi st) gradient (fst p);
          gh \<leftarrow> Vector_dot gradient (hidden st);
          let gattn = w * (d - gh);
          wi' \<leftarrow> Matrix_addRow (wi st) gradient (fst p) (w * n);
          attn' \<leftarrow> Matrix_add_at (attn st) (fst p) (snd p) gattn;
          bias' \<leftarrow> Vector_add_at (bias st) (snd p) gattn;
          computeAttnGradient_loop gradient n input sm
            (st\<lparr>wi := wi', attn := attn', bias := bias'\<rparr>) }"

definition computeAttnGradient ::
  "Model \<Rightarrow> (int \<times> int) list \<Rightarrow> Vector \<Rightarrow> real list \<Rightarrow> Model option" where
  "computeAttnGradient st input gradient sm =
     (if int (length gradient) \<noteq> hsz st then None
      else computeAttnGradient_loop gradient (real (length input)) input sm st)"

fun computeAttnGradient2_loop ::
  "Vector \<Rightarrow> real \<Rightarrow> int \<Rightarrow> (int \<times> int) list \<Rightarrow> real list \<Rightarrow> Model \<Rightarrow> Model option" where
  "computeAttnGradient2_loop gradient n target [] sm st = Some st"
| "computeAttnGradient2_loop gradient n target (p # input) [] st = None"
| "computeAttnGradient2_loop gradient n target (p # input) (w # sm) st =
     do { d \<leftarrow> Matrix_dotRow (wi st) gradient (fst p);
          gh \<leftarrow> Vector_dot gradient (hidden st);
          let gattn = w * (d - gh);
          wi' \<leftarrow> Matrix_addRow (wi st) gradient (fst p) (w * n);
          attn' \<leftarrow> Matrix_add_at (attn st) target (snd p) gattn;
          bias' \<leftarrow> Vector_add_at (bias st) (snd p) gattn;
          computeAttnGradient2_loop gradient n target input sm
            (st\<lparr>wi := wi', attn := attn', bias := bias'\<rparr>) }"

definition computeAttnGradient2 ::
  "Model \<Rightarrow> (int \<times> int) list \<Rightarrow> int \<Rightarrow> Vector \<Rightarrow> real list \<Rightarrow> Model option" where
  "computeAttnGradient2 st input target gradient sm =
     (if int (length gradient) \<noteq> hsz st then None
      else computeAttnGradient2_loop gradient (real (length input)) target input sm st)"

section \<open>Update drivers\<close>

fun erase_loop :: "int \<Rightarrow> (int \<times> int) list \<Rightarrow> (int \<times> int) list" where
  \<comment> \<open>the iterator loop that erases the contexts equal to the target\<close>
  "erase_loop target [] = []"
| "erase_loop target (p # input) =
     (if fst p = target then erase_loop target input else p # erase_loop target input)"

fun scatter_loop :: "Vector \<Rightarrow> int list \<Rightarrow> Matrix \<Rightarrow> Matrix option" where
  "scatter_loop g [] M = Some M"
| "scatter_loop g (r # rs) M = do { M' \<leftarrow> Matrix_addRow M g r 1; scatter_loop g rs M' }"

definition update :: "Constants \<Rightarrow> Model \<Rightarrow> int list \<Rightarrow> int \<Rightarrow> real \<Rightarrow> Model option" where
  "update K st input target lr =
     (if \<not> target \<ge> 0 then None
      else if \<not> target < osz st then None
      else if length input = 0 then Some st
      else do {
        h \<leftarrow> computeHidden st input (hidden st);
        (l, st1) \<leftarrow> lossKernel K (st\<lparr>hidden := h\<rparr>) target lr;
        let st2 = st1\<lparr>loss_sum := loss_sum st1 + l\<rparr>;
        let st3 = st2\<lparr>nexamples := nexamples st2 + 1\<rparr>;
        st4 \<leftarrow> (if model (args st3) = sup
                then do { a \<leftarrow> fdiv 1 (real (length input));
                          Some (st3\<lparr>grad := Vector_mul (grad st3) a\<rparr>) }
                else Some st3);
        w \<leftarrow> scatter_loop (grad st4) input (wi st4);
        Some (st4\<lparr>wi := w\<rparr>) })"

definition updateAttn ::
  "Constants \<Rightarrow> Model \<Rightarrow> (int \<times> int) list \<Rightarrow> int \<Rightarrow> real \<Rightarrow> ((int \<times> int) list \<times> Model) option" where
  \<comment> \<open>\<^verbatim>\<open>input\<close> is a non-const reference: its final contents are returned with the state\<close>
  "updateAttn K st input target lr =
     (if \<not> target \<ge> 0 then None
      else if \<not> target < osz st then None
      else if length input = 0 then Some (input, st)
      else (let st0 = st\<lparr>softmaxattn := []\<rparr>;
                input' = erase_loop target input
            in if length input' = 0 then Some (input', st0)
               else do {
                 (h, sm) \<leftarrow> computeAttnHidden st0 input' (hidden st0);
                 (l, st1) \<leftarrow> lossKernel K (st0\<lparr>hidden := h, softmaxattn := sm\<rparr>) target lr;
                 let st2 = st1\<lparr>loss_sum := loss_sum st1 + l\<rparr>;
                 let st3 = st2\<lparr>nexamples := nexamples st2 + 1\<rparr>;
                 st4 \<leftarrow> computeAttnGradient st3 input' (grad st3) (softmaxattn st3);
                 Some (input', st4) }))"

definition updateAttn2 ::
  "Constants \<Rightarrow> Model \<Rightarrow> (int \<times> int) list \<Rightarrow> int \<Rightarrow> real \<Rightarrow> ((int \<times> int) list \<times> Model) option" where
  "updateAttn2 K st input target lr =
     (if \<not> target \<ge> 0 then None
      else if \<not> target < osz st then None
      else if length input = 0 then Some (input, st)
      else (let st0 = st\<lparr>softmaxattn := []\<rparr>;
                input' = erase_loop target input
            in if length input' = 0 then Some (input', st0)
               else do {
                 (h, sm) \<leftarrow> computeAttnHidden2 st0 input' target (hidden st0);
                 (l, st1) \<leftarrow> lossKernel K (st0\<lparr>hidden := h, softmaxattn := sm\<rparr>) target lr;
                 let st2 = st1\<lparr>loss_sum := loss_sum st1 + l\<rparr>;
                 let st3 = st2\<lparr>nexamples := nexamples st2 + 1\<rparr>;
                 st4 \<leftarrow> computeAttnGradient2 st3 input' target (grad st3) (softmaxattn st3);
                 Some (input', st4) }))"

section \<open>Single and double precision\<close>

text \<open>
  Rounding to the nearest number with \<open>p\<close> significant bits, ties to the even significand,
  as IEEE 754 arithmetic does for \<^verbatim>\<open>float\<close> (\<open>p = 24\<close>) and \<^verbatim>\<open>double\<close> (\<open>p = 53\<close>). The exponent
  is not bounded: what \<^verbatim>\<open>initTableNegatives\<close> computes from counts that are not negative is 0
  or far from the overflow and the underflow of both formats.
\<close>

definition nearest_even :: "real \<Rightarrow> int" where
  "nearest_even y =
     (let f = \<lfloor>y\<rfloor>
      in if y - real_of_int f < 1 / 2 then f
         else if y - real_of_int f > 1 / 2 then f + 1
         else if even f then f else f + 1)"

definition round_to :: "nat \<Rightarrow> real \<Rightarrow> real" where
  "round_to p x =
     (if x = 0 then 0
      else let e = \<lfloor>log 2 \<bar>x\<bar>\<rfloor>;
               u = 2 powi (e - int p + 1)
           in real_of_int (nearest_even (x / u)) * u)"

definition to_float :: "real \<Rightarrow> real" where
  "to_float = round_to 24"

definition to_double :: "real \<Rightarrow> real" where
  "to_double = round_to 53"

section \<open>Negative-sampling table\<close>

type_synonym int64 = "64 word"

definition pow_half :: "int64 \<Rightarrow> real option" where
  \<comment> \<open>\<^verbatim>\<open>pow(c, 0.5)\<close> on a count, computed in \<^verbatim>\<open>double\<close> and taken as correctly rounded;
      not a number for a negative count\<close>
  "pow_half c =
     (if sint c < 0 then None
      else Some (to_double (sqrt (to_double (real_of_int (sint c))))))"

fun z_loop :: "int64 list \<Rightarrow> real \<Rightarrow> real option" where
  \<comment> \<open>\<^verbatim>\<open>z += pow(counts[i], 0.5)\<close>: the sum is a \<^verbatim>\<open>double\<close>, stored into the \<^verbatim>\<open>float\<close> \<open>z\<close>\<close>
  "z_loop [] z = Some z"
| "z_loop (c # counts) z = do { r \<leftarrow> pow_half c; z_loop counts (to_float (to_double (z + r))) }"

definition table_bound :: "Constants \<Rightarrow> real \<Rightarrow> int64 \<Rightarrow> real option" where
  \<comment> \<open>the bound \<^verbatim>\<open>c * NEGATIVE_TABLE_SIZE / z\<close> of the inner loop, with
      \<^verbatim>\<open>real c = pow(counts[i], 0.5)\<close>: a \<^verbatim>\<open>float\<close> product and a \<^verbatim>\<open>float\<close> quotient\<close>
  "table_bound K z cnt =
     do { r \<leftarrow> pow_half cnt;
          x \<leftarrow> fdiv (to_float (to_float r * to_float (real_of_int (NEGATIVE_TABLE_SIZE K)))) z;
          Some (to_float x) }"

partial_function (option) push_loop :: "real \<Rightarrow> int \<Rightarrow> nat \<Rightarrow> int list \<Rightarrow> int list option" where
  "push_loop x i j negs =
     (if to_float (real j) < x then push_loop x i (j + 1) (negs @ [i]) else Some negs)"

declare push_loop.simps [code]

text \<open>
  \<open>push_loop x i 0\<close> is the inner loop \<^verbatim>\<open>for (j = 0; j < x; j++) negatives.push_back(i)\<close>, whose
  comparison converts the counter to a \<^verbatim>\<open>float\<close>.
\<close>

fun table_loop :: "Constants \<Rightarrow> real \<Rightarrow> int64 list \<Rightarrow> nat \<Rightarrow> int list \<Rightarrow> int list option" where
  "table_loop K z [] i negs = Some negs"
| "table_loop K z (cnt # counts) i negs =
     do { x \<leftarrow> table_bound K z cnt;
          negs' \<leftarrow> push_loop x (int i) 0 negs;
          table_loop K z counts (i + 1) negs' }"

definition initTableNegatives ::
  "Constants \<Rightarrow> (int list \<Rightarrow> int list) \<Rightarrow> Model \<Rightarrow> int64 list \<Rightarrow> Model option" where
  \<comment> \<open>the second argument is what \<^verbatim>\<open>std::shuffle\<close> does to the table with the engine's
      generator in its current state\<close>
  "initTableNegatives K shuffle st counts =
     do { z \<leftarrow> z_loop counts 0;
          negs \<leftarrow> table_loop K z counts 0 (negatives st);
          Some (st\<lparr>negatives := shuffle negs\<rparr>) }"

section \<open>Huffman tree\<close>

definition node0 :: Node where
  \<comment> \<open>a node as the first loop of \<^verbatim>\<open>buildTree\<close> leaves it\<close>
  "node0 = \<lparr> parent = - 1, left = - 1, right = - 1, count = 1000000000000000, binary = False \<rparr>"

definition modify :: "Node list \<Rightarrow> int \<Rightarrow> (Node \<Rightarrow> Node) \<Rightarrow> Node list option" where
  \<comment> \<open>an assignment to a field of \<^verbatim>\<open>tree[i]\<close>\<close>
  "modify t i f = do { n \<leftarrow> nth_chk t i; upd_chk t i (f n) }"

fun counts_loop :: "int64 list \<Rightarrow> nat list \<Rightarrow> Node list \<Rightarrow> Node list option" where
  "counts_loop counts [] t = Some t"
| "counts_loop counts (i # is) t =
     do { c \<leftarrow> nth_chk counts (int i);
          t' \<leftarrow> modify t (int i) (\<lambda>n. n\<lparr>count := c\<rparr>);
          counts_loop counts is t' }"

definition pick :: "Node list \<Rightarrow> int \<Rightarrow> int \<Rightarrow> (int \<times> int \<times> int) option" where
  \<comment> \<open>one round of the loop over \<^verbatim>\<open>j\<close>: the chosen index \<^verbatim>\<open>mini[j]\<close> and the two cursors\<close>
  "pick t leaf node =
     (if leaf \<ge> 0
      then do { l \<leftarrow> nth_chk t leaf;
                n \<leftarrow> nth_chk t node;
                if count l <s count n then Some (leaf, leaf - 1, node)
                else Some (node, leaf, node + 1) }
      else Some (node, leaf, node + 1))"

definition link :: "Node list \<Rightarrow> int \<Rightarrow> int \<Rightarrow> int \<Rightarrow> Node list option" where
  \<comment> \<open>the six assignments that make \<^verbatim>\<open>mini[0]\<close> and \<^verbatim>\<open>mini[1]\<close> the children of node \<^verbatim>\<open>i\<close>\<close>
  "link t i m0 m1 =
     do { t1 \<leftarrow> modify t i (\<lambda>n. n\<lparr>left := m0\<rparr>);
          t2 \<leftarrow> modify t1 i (\<lambda>n. n\<lparr>right := m1\<rparr>);
          a \<leftarrow> nth_chk t2 m0;
          b \<leftarrow> nth_chk t2 m1;
          t3 \<leftarrow> modify t2 i (\<lambda>n. n\<lparr>count := count a + count b\<rparr>);
          t4 \<leftarrow> modify t3 m0 (\<lambda>n. n\<lparr>parent := i\<rparr>);
          t5 \<leftarrow> modify t4 m1 (\<lambda>n. n\<lparr>parent := i\<rparr>);
          modify t5 m1 (\<lambda>n. n\<lparr>binary := True\<rparr>) }"

function build_loop :: "int \<Rightarrow> int \<Rightarrow> int \<Rightarrow> int \<Rightarrow> Node list \<Rightarrow> Node list option" where
  "build_loop sz i leaf node t =
     (if i < 2 * sz - 1
      then do { (m0, leaf1, node1) \<leftarrow> pick t leaf node;
                (m1, leaf2, node2) \<leftarrow> pick t leaf1 node1;
                t' \<leftarrow> link t i m0 m1;
                build_loop sz (i + 1) leaf2 node2 t' }
      else Some t)"
  by pat_completeness auto
termination
  by (relation "measure (\<lambda>(sz, i, leaf, node, t). nat (2 * sz - 1 - i))") auto

declare build_loop.simps [simp del]

partial_function (option) path_loop ::
  "Node list \<Rightarrow> int \<Rightarrow> int \<Rightarrow> int list \<Rightarrow> bool list \<Rightarrow> (int list \<times> bool list) option" where
  "path_loop t sz j path code =
     do { n \<leftarrow> nth_chk t j;
          if parent n \<noteq> - 1
          then path_loop t sz (parent n) (path @ [parent n - sz]) (code @ [binary n])
          else Some (path, code) }"

declare path_loop.simps [code]

fun paths_loop ::
  "Node list \<Rightarrow> int \<Rightarrow> nat list \<Rightarrow> int list list \<Rightarrow> bool list list
   \<Rightarrow> (int list list \<times> bool list list) option" where
  "paths_loop t sz [] ps cs = Some (ps, cs)"
| "paths_loop t sz (i # is) ps cs =
     do { (path, code) \<leftarrow> path_loop t sz (int i) [] [];
          paths_loop t sz is (ps @ [path]) (cs @ [code]) }"

definition buildTree :: "Model \<Rightarrow> int64 list \<Rightarrow> Model option" where
  "buildTree st counts =
     (if osz st \<le> 0 \<or> 2 ^ 30 \<le> osz st then None
      else do {
        let t0 = replicate (nat (2 * osz st - 1)) node0;
        t1 \<leftarrow> counts_loop counts [0 ..< nat (osz st)] t0;
        t2 \<leftarrow> build_loop (osz st) (osz st) (osz st - 1) (osz st) t1;
        (ps, cs) \<leftarrow> paths_loop t2 (osz st) [0 ..< nat (osz st)] (paths st) (codes st);
        Some (st\<lparr>tree := t2, paths := ps, codes := cs\<rparr>) })"

definition setTargetCounts ::
  "Constants \<Rightarrow> (int list \<Rightarrow> int list) \<Rightarrow> Model \<Rightarrow> int64 list \<Rightarrow> Model option" where
  "setTargetCounts K shuffle st counts =
     (if int (length counts) \<noteq> osz st then None
      else do {
        st1 \<leftarrow> (if loss (args st) = ns then initTableNegatives K shuffle st counts else Some st);
        if loss (args st1) = hs then buildTree st1 counts else Some st1 })"

text \<open>
  The walk from a node down the tree that a list of internal-node ids (offset by \<open>- osz\<close>,
  as \<open>paths\<close> stores them) and a list of code bits describe, both in root-to-leaf order:
  at each step the current node must be the listed one, and the walk goes to its right
  child on bit 1 and to its left child on bit 0, the children \<^verbatim>\<open>Model::dfs\<close> scores with
  \<open>log f\<close> and \<open>log (1 - f)\<close>. This function states C4; it is not a function of model.cc.
\<close>

fun descend :: "Node list \<Rightarrow> int \<Rightarrow> int \<Rightarrow> int list \<Rightarrow> bool list \<Rightarrow> int option" where
  "descend t sz n [] [] = Some n"
| "descend t sz n (p # path) (b # code) =
     (if n = p + sz
      then do { nd \<leftarrow> nth_chk t n; descend t sz (if b then right nd else left nd) path code }
      else None)"
| "descend t sz n [] (b # code) = None"
| "descend t sz n (p # path) [] = None"

section \<open>Invariants of the tree construction\<close>

definition consumed :: "int \<Rightarrow> int \<Rightarrow> int \<Rightarrow> int \<Rightarrow> bool" where
  \<comment> \<open>node \<open>k\<close> has been taken by one of the two cursors\<close>
  "consumed sz leaf node k \<longleftrightarrow> (leaf < k \<and> k < sz) \<or> (sz \<le> k \<and> k < node)"

definition cursors :: "int \<Rightarrow> int \<Rightarrow> int \<Rightarrow> int \<Rightarrow> int \<Rightarrow> bool" where
  \<comment> \<open>the cursors in step \<open>i\<close>, after \<open>c\<close> of its two choices\<close>
  "cursors sz i c leaf node \<longleftrightarrow>
     - 1 \<le> leaf \<and> leaf < sz \<and> sz \<le> node \<and> node \<le> i \<and> node = 2 * (i - sz) + leaf + 1 + c"

definition linked :: "Node list \<Rightarrow> int \<Rightarrow> int \<Rightarrow> int \<Rightarrow> bool" where
  \<comment> \<open>node \<open>k\<close> has a parent, an internal node above \<open>k\<close> and below \<open>i\<close>, of which it is the
      right child if its \<open>binary\<close> flag is set and the left child if not\<close>
  "linked t sz i k \<longleftrightarrow>
     k < parent (t ! nat k) \<and> sz \<le> parent (t ! nat k) \<and> parent (t ! nat k) < i \<and>
     (if binary (t ! nat k) then right (t ! nat (parent (t ! nat k))) = k
      else left (t ! nat (parent (t ! nat k))) = k)"

definition build_inv :: "int \<Rightarrow> int \<Rightarrow> int \<Rightarrow> int \<Rightarrow> Node list \<Rightarrow> bool" where
  \<comment> \<open>the invariant of the main loop of \<^verbatim>\<open>buildTree\<close>, at the start of step \<open>i\<close>\<close>
  "build_inv sz i leaf node t \<longleftrightarrow>
     int (length t) = 2 * sz - 1 \<and> sz \<le> i \<and> i \<le> 2 * sz - 1 \<and>
     cursors sz i 0 leaf node \<and> (node < i \<or> i = sz) \<and>
     (\<forall>k. 0 \<le> k \<and> k < sz \<longrightarrow> count (t ! nat k) <s 1000000000000000) \<and>
     (\<forall>k. i \<le> k \<and> k < 2 * sz - 1 \<longrightarrow> count (t ! nat k) = 1000000000000000) \<and>
     (\<forall>k. 0 \<le> k \<and> k < 2 * sz - 1 \<longrightarrow>
        (if consumed sz leaf node k then linked t sz i k
         else parent (t ! nat k) = - 1 \<and> \<not> binary (t ! nat k)))"

definition huffman :: "int \<Rightarrow> Node list \<Rightarrow> bool" where
  \<comment> \<open>the finished tree: every node but the last has a parent, the last one is the root\<close>
  "huffman sz t \<longleftrightarrow>
     int (length t) = 2 * sz - 1 \<and>
     (\<forall>k. 0 \<le> k \<and> k < 2 * sz - 2 \<longrightarrow> linked t sz (2 * sz - 1) k) \<and>
     parent (t ! nat (2 * sz - 2)) = - 1"

section \<open>Sequences of updates\<close>

text \<open>
  \<open>updates K st0 ls st\<close>: starting in \<open>st0\<close>, a sequence of calls of \<open>update\<close>, each with a
  non-empty input, leads to \<open>st\<close>, and \<open>ls\<close> lists, in order, what the loss kernel returned
  in each call. Calls of \<open>setTargetCounts\<close>, which the negative-sampling and the
  hierarchical-softmax kernels need before the first update, may come in between.
\<close>

inductive updates :: "Constants \<Rightarrow> Model \<Rightarrow> real list \<Rightarrow> Model \<Rightarrow> bool" for K st0 where
  updates_none: "updates K st0 [] st0"
| updates_targets:
    "updates K st0 ls st \<Longrightarrow>
     setTargetCounts K shuffle st counts = Some st' \<Longrightarrow>
     updates K st0 ls st'"
| updates_call:
    "updates K st0 ls st \<Longrightarrow> input \<noteq> [] \<Longrightarrow>
     computeHidden st input (hidden st) = Some h \<Longrightarrow>
     lossKernel K (st\<lparr>hidden := h\<rparr>) target lr = Some (l, st1) \<Longrightarrow>
     update K st input target lr = Some st' \<Longrightarrow>
     updates K st0 (ls @ [l]) st'"

section \<open>Example engines\<close>

definition K0 :: Constants where
  "K0 = \<lparr> SIGMOID_TABLE_SIZE = 512, MAX_SIGMOID = 8, LOG_TABLE_SIZE = 512,
          NEGATIVE_TABLE_SIZE = 10000000 \<rparr>"

definition args1 :: Args where
  "args1 = \<lparr> dim = 1, loss = softmax, model = sup, neg = 0 \<rparr>"

definition engine1 :: Model where
  \<comment> \<open>one input row, one class, one attention cell, all parameters zero\<close>
  "engine1 = \<lparr> wi = [[0]], wo = [[0]], attn = [[0]], bias = [0], args = args1,
               hidden = [0], output_vec = [0], grad = [0], softmaxattn = [],
               hsz = 1, isz = 1, osz = 1, loss_sum = 0, nexamples = 1,
               t_sigmoid = map (sigmoid_entry K0) [0 ..< 513],
               t_log = map (log_entry K0) [0 ..< 513],
               negatives = [], negpos = 0, paths = [], codes = [], tree = [] \<rparr>"

definition engine2 :: Model where
  \<comment> \<open>as \<open>engine1\<close>, with two input rows and two attention rows\<close>
  "engine2 = engine1\<lparr> wi := [[0], [0]], attn := [[0], [0]], isz := 2 \<rparr>"

definition engine2_updated :: Model where
  \<comment> \<open>\<open>engine2\<close> after \<open>updateAttn [(0, 0), (1, 0)] 0 (1/10)\<close>\<close>
  "engine2_updated = engine2\<lparr> hidden := [0], grad := [0], output_vec := [1],
                              softmaxattn := [1],
                              loss_sum := - log_entry K0 512, nexamples := 2 \<rparr>"

definition engine3 :: Model where
  \<comment> \<open>as \<open>engine1\<close>, with the attention parameter at -100\<close>
  "engine3 = engine1\<lparr> attn := [[- 100]] \<rparr>"

definition engine4 :: Model where
  \<comment> \<open>as \<open>engine1\<close>, with a table of negatives\<close>
  "engine4 = engine1\<lparr> negatives := [0, 0, 1, 0], negpos := 3 \<rparr>"

definition engine5 :: Model where
  \<comment> \<open>as \<open>engine1\<close>, with six classes\<close>
  "engine5 = engine1\<lparr> wo := replicate 6 [0], output_vec := replicate 6 0, osz := 6 \<rparr>"

definition tree5 :: "Node list" where
  \<comment> \<open>the tree of the counts 32, 16, 8, 4, 2, 1\<close>
  "tree5 =
     [\<lparr>parent = 10, left = - 1, right = - 1, count = 32, binary = True\<rparr>,
      \<lparr>parent = 9, left = - 1, right = - 1, count = 16, binary = True\<rparr>,
      \<lparr>parent = 8, left = - 1, right = - 1, count = 8, binary = True\<rparr>,
      \<lparr>parent = 7, left = - 1, right = - 1, count = 4, binary = True\<rparr>,
      \<lparr>parent = 6, left = - 1, right = - 1, count = 2, binary = True\<rparr>,
      \<lparr>parent = 6, left = - 1, right = - 1, count = 1, binary = False\<rparr>,
      \<lparr>parent = 7, left = 5, right = 4, count = 3, binary = False\<rparr>,
      \<lparr>parent = 8, left = 6, right = 3, count = 7, binary = False\<rparr>,
      \<lparr>parent = 9, left = 7, right = 2, count = 15, binary = False\<rparr>,
      \<lparr>parent = 10, left = 8, right = 1, count = 31, binary = False\<rparr>,
      \<lparr>parent = - 1, left = 9, right = 0, count = 63, binary = False\<rparr>]"

definition engine5_built :: Model where
  \<comment> \<open>\<open>engine5\<close> after \<open>buildTree\<close> on the counts 32, 16, 8, 4, 2, 1\<close>
  "engine5_built =
     engine5\<lparr> tree := tree5,
               paths := [[4], [3, 4], [2, 3, 4], [1, 2, 3, 4], [0, 1, 2, 3, 4], [0, 1, 2, 3, 4]],
               codes := [[True], [True, False], [True, False, False],
                         [True, False, False, False], [True, False, False, False, False],
                         [False, False, False, False, False]] \<rparr>"

definition engine6 :: Model where
  \<comment> \<open>as \<open>engine1\<close>, with two classes\<close>
  "engine6 = engine1\<lparr> wo := [[0], [0]], output_vec := [0, 0], osz := 2 \<rparr>"

definition engine6_updated :: Model where
  \<comment> \<open>\<open>engine6\<close> after \<open>update [0] 0 (1/10)\<close>\<close>
  "engine6_updated = engine6\<lparr> hidden := [0], grad := [0], output_vec := [1 / 2, 1 / 2],
                              loss_sum := - log_entry K0 256, nexamples := 2 \<rparr>"

definition args_hs :: Args where
  "args_hs = \<lparr> dim = 1, loss = hs, model = sup, neg = 0 \<rparr>"

definition engine7 :: Model where
  \<comment> \<open>as \<open>engine6\<close>, with the hierarchical softmax as its loss\<close>
  "engine7 = engine6\<lparr> args := args_hs \<rparr>"

definition tree7 :: "Node list" where
  \<comment> \<open>the tree of the counts 2, 1\<close>
  "tree7 =
     [\<lparr>parent = 2, left = - 1, right = - 1, count = 2, binary = True\<rparr>,
      \<lparr>parent = 2, left = - 1, right = - 1, count = 1, binary = False\<rparr>,
      \<lparr>parent = - 1, left = 1, right = 0, count = 3, binary = False\<rparr>]"

definition engine7_targets :: Model where
  \<comment> \<open>\<open>engine7\<close> after \<open>setTargetCounts\<close> on the counts 2, 1\<close>
  "engine7_targets =
     engine7\<lparr> tree := tree7, paths := [[0], [0]], codes := [[True], [False]] \<rparr>"

definition engine7_updated :: Model where
  \<comment> \<open>\<open>engine7_targets\<close> after \<open>update [0] 0 (1/10)\<close>\<close>
  "engine7_updated = engine7_targets\<lparr> hidden := [0], grad := [0],
                                       loss_sum := - log_entry K0 256, nexamples := 2 \<rparr>"

section \<open>Properties\<close>

subsection \<open>Evaluating the example engines\<close>

lemmas engine_defs = engine1_def K0_def args1_def

lemmas prim_defs = nth_chk_def upd_chk_def fdiv_def trunc_def Vector_zero_def Vector_mul_def
  Vector_dot_def Vector_addRow_def Vector_mulMat_def Matrix_dotRow_def Matrix_addRow_def
  Matrix_at_def Matrix_add_at_def Vector_add_at_def

lemma engine1_fresh: "Model_new K0 (\<lambda>_ _. 0) [[0]] [[0]] [[0]] [0] args1 = Some engine1"
  by (simp add: Model_new_def initSigmoid_def initLog_def Vector_new_def engine_defs)

lemma upt_0_2: "[0 ..< 2] = [0, Suc 0]"
  by (simp add: upt_rec)

lemma engine6_fresh: "Model_new K0 (\<lambda>_ _. 0) [[0]] [[0], [0]] [[0]] [0] args1 = Some engine6"
  by (simp add: Model_new_def initSigmoid_def initLog_def Vector_new_def engine6_def engine_defs
      upt_0_2)

lemma engine6_hidden: "computeHidden engine6 [0] (hidden engine6) = Some [0]"
  by (simp add: computeHidden_def engine6_def engine_defs prim_defs)

lemma engine6_kernel:
  "lossKernel K0 (engine6\<lparr>hidden := [0]\<rparr>) 0 (1 / 10)
   = Some (- log_entry K0 256,
           engine6\<lparr>hidden := [0], grad := [0], output_vec := [1 / 2, 1 / 2]\<rparr>)"
  by (simp add: lossKernel_def softmax_kernel_def computeOutputSoftmax_def log_tab_def
      engine6_def engine_defs prim_defs upto.simps)

lemma engine6_update: "update K0 engine6 [0] 0 (1 / 10) = Some engine6_updated"
  by (simp add: update_def computeHidden_def lossKernel_def softmax_kernel_def
      computeOutputSoftmax_def log_tab_def engine6_updated_def engine6_def engine_defs prim_defs
      upto.simps)

lemma engine6_updates: "updates K0 engine6 [- log_entry K0 256] engine6_updated"
  using updates_call[OF updates_none _ engine6_hidden engine6_kernel engine6_update]
  by simp

lemma log_entry_256: "log_entry K0 256 < 0"
proof -
  have "(256 + 1 / 100000) / 512 < (1::real)" "0 < ((256 + 1 / 100000) / 512 :: real)"
    by simp_all
  then have "ln ((256 + 1 / 100000) / 512 :: real) < 0" by (simp only: ln_less_zero_iff)
  then show ?thesis by (simp add: log_entry_def K0_def)
qed

lemma tree7_built:
  "Option.bind (counts_loop [2, 1] [0 ..< 2] (replicate 3 node0)) (build_loop 2 2 1 2) = Some tree7"
  by code_simp

lemma tree7_paths:
  "paths_loop tree7 2 [0 ..< 2] [] [] = Some ([[0], [0]], [[True], [False]])"
  by code_simp

lemma engine7_fresh:
  "Model_new K0 (\<lambda>_ _. 0) [[0]] [[0], [0]] [[0]] [0] args_hs = Some engine7"
  by (simp add: Model_new_def initSigmoid_def initLog_def Vector_new_def engine7_def engine6_def
      args_hs_def engine_defs upt_0_2)

lemma engine7_setTargetCounts: "setTargetCounts K0 rev engine7 [2, 1] = Some engine7_targets"
proof -
  have "osz engine7 = 2" "paths engine7 = []" "codes engine7 = []" "loss (args engine7) = hs"
    by (simp_all add: engine7_def engine6_def args_hs_def engine1_def)
  moreover from tree7_built obtain t1 where
    "counts_loop [2, 1] [0 ..< 2] (replicate 3 node0) = Some t1"
    "build_loop 2 2 1 2 t1 = Some tree7"
    by (auto split: Option.bind_splits)
  ultimately show ?thesis using tree7_paths
    by (simp add: setTargetCounts_def buildTree_def engine7_targets_def)
qed

lemma engine7_hidden: "computeHidden engine7_targets [0] (hidden engine7_targets) = Some [0]"
  by (simp add: computeHidden_def engine7_targets_def engine7_def engine6_def engine_defs
      prim_defs)

lemma engine7_kernel:
  "lossKernel K0 (engine7_targets\<lparr>hidden := [0]\<rparr>) 0 (1 / 10)
   = Some (- log_entry K0 256, engine7_targets\<lparr>hidden := [0], grad := [0]\<rparr>)"
  by (simp add: lossKernel_def hierarchicalSoftmax_def binaryLogistic_def sigmoid_def
      sigmoid_entry_def log_tab_def engine7_targets_def engine7_def engine6_def args_hs_def
      engine_defs prim_defs)

lemma engine7_update: "update K0 engine7_targets [0] 0 (1 / 10) = Some engine7_updated"
  by (simp add: update_def computeHidden_def lossKernel_def hierarchicalSoftmax_def
      binaryLogistic_def sigmoid_def sigmoid_entry_def log_tab_def engine7_updated_def
      engine7_targets_def engine7_def engine6_def args_hs_def engine_defs prim_defs)

lemma engine7_updates: "updates K0 engine7 [- log_entry K0 256] engine7_updated"
  using updates_call[OF updates_targets[OF updates_none engine7_setTargetCounts] _
      engine7_hidden engine7_kernel engine7_update]
  by simp

subsection \<open>The loss accumulator and the example counter\<close>

lemma getNegative_frame:
  "getNegative st target = Some (n, st') \<Longrightarrow> loss_sum st' = loss_sum st \<and> nexamples st' = nexamples st"
  by (auto simp: getNegative_def split: Option.bind_splits)

lemma binaryLogistic_frame:
  "binaryLogistic K st t y lr = Some (l, st') \<Longrightarrow> loss_sum st' = loss_sum st \<and> nexamples st' = nexamples st"
  by (auto simp: binaryLogistic_def Let_def split: Option.bind_splits if_splits)

lemma negativeSampling_loop_frame:
  "negativeSampling_loop K ng target lr n acc st = Some (l, st') \<Longrightarrow>
   loss_sum st' = loss_sum st \<and> nexamples st' = nexamples st"
proof (induction K ng target lr n acc st rule: negativeSampling_loop.induct)
  case (1 K ng target lr n acc st)
  show ?case
  proof (cases "n \<le> ng")
    case False
    with "1.prems" show ?thesis by (simp add: negativeSampling_loop.simps)
  next
    case le: True
    show ?thesis
    proof (cases "n = 0")
      case True
      with le "1.prems" obtain l1 st1 where
        b: "binaryLogistic K st target True lr = Some (l1, st1)" and
        r: "negativeSampling_loop K ng target lr (n + 1) (acc + l1) st1 = Some (l, st')"
        by (subst (asm) negativeSampling_loop.simps) (auto split: Option.bind_splits)
      from "1.IH"(1)[OF le True _ _ r] b binaryLogistic_frame[OF b] show ?thesis by simp
    next
      case False
      with le "1.prems" obtain ng1 st1 l1 st2 where
        g: "getNegative st target = Some (ng1, st1)" and
        b: "binaryLogistic K st1 ng1 False lr = Some (l1, st2)" and
        r: "negativeSampling_loop K ng target lr (n + 1) (acc + l1) st2 = Some (l, st')"
        by (subst (asm) negativeSampling_loop.simps) (auto split: Option.bind_splits)
      from "1.IH"(2)[OF le False _ _ _ _ r] g b getNegative_frame[OF g] binaryLogistic_frame[OF b]
      show ?thesis by simp
    qed
  qed
qed

lemma hierarchicalSoftmax_loop_frame:
  "hierarchicalSoftmax_loop K lr ps bs acc st = Some (l, st') \<Longrightarrow>
   loss_sum st' = loss_sum st \<and> nexamples st' = nexamples st"
proof (induction K lr ps bs acc st rule: hierarchicalSoftmax_loop.induct)
  case (3 K lr p ps b bs acc st)
  from "3.prems" obtain l1 st1 where
    b: "binaryLogistic K st p b lr = Some (l1, st1)" and
    r: "hierarchicalSoftmax_loop K lr ps bs (acc + l1) st1 = Some (l, st')"
    by (auto split: Option.bind_splits)
  from "3.IH"[OF _ _ r] b binaryLogistic_frame[OF b] show ?case by simp
qed simp_all

lemma softmax_loop_frame:
  "softmax_loop target lr is st = Some st' \<Longrightarrow>
   loss_sum st' = loss_sum st \<and> nexamples st' = nexamples st"
proof (induction "is" arbitrary: st)
  case (Cons i "is")
  from Cons.prems obtain g w where
    r: "softmax_loop target lr is (st\<lparr>grad := g, wo := w\<rparr>) = Some st'"
    by (auto simp: Let_def split: Option.bind_splits)
  from Cons.IH[OF r] show ?case by simp
qed simp

lemma negativeSampling_frame:
  assumes "negativeSampling K st target lr = Some (l, st')"
  shows "loss_sum st' = loss_sum st \<and> nexamples st' = nexamples st"
  using negativeSampling_loop_frame[OF assms[unfolded negativeSampling_def]] by simp

lemma hierarchicalSoftmax_frame:
  assumes "hierarchicalSoftmax K st target lr = Some (l, st')"
  shows "loss_sum st' = loss_sum st \<and> nexamples st' = nexamples st"
proof -
  from assms obtain ps bs where
    "hierarchicalSoftmax_loop K lr ps bs 0 (st\<lparr>grad := Vector_zero (grad st)\<rparr>) = Some (l, st')"
    by (auto simp: hierarchicalSoftmax_def split: Option.bind_splits)
  from hierarchicalSoftmax_loop_frame[OF this] show ?thesis by simp
qed

lemma softmax_kernel_frame:
  assumes "softmax_kernel K st target lr = Some (l, st')"
  shows "loss_sum st' = loss_sum st \<and> nexamples st' = nexamples st"
proof -
  from assms obtain out where
    "softmax_loop target lr [0 .. osz st - 1]
       (st\<lparr>grad := Vector_zero (grad st), output_vec := out\<rparr>) = Some st'"
    by (auto simp: softmax_kernel_def split: Option.bind_splits)
  from softmax_loop_frame[OF this] show ?thesis by simp
qed

lemma lossKernel_frame:
  "lossKernel K st target lr = Some (l, st') \<Longrightarrow>
   loss_sum st' = loss_sum st \<and> nexamples st' = nexamples st"
  unfolding lossKernel_def
  by (auto split: if_splits
      dest: negativeSampling_frame hierarchicalSoftmax_frame softmax_kernel_frame)

lemma update_accumulates:
  assumes "input \<noteq> []"
    and "computeHidden st input (hidden st) = Some h"
    and "lossKernel K (st\<lparr>hidden := h\<rparr>) target lr = Some (l, st1)"
    and "update K st input target lr = Some st'"
  shows "loss_sum st' = loss_sum st + l \<and> nexamples st' = nexamples st + 1"
  using assms lossKernel_frame[OF assms(3)]
  by (auto simp: update_def Let_def split: if_splits Option.bind_splits)

lemma initTableNegatives_frame:
  "initTableNegatives K shuffle st counts = Some st' \<Longrightarrow>
   loss_sum st' = loss_sum st \<and> nexamples st' = nexamples st"
  by (auto simp: initTableNegatives_def split: Option.bind_splits)

lemma buildTree_frame:
  "buildTree st counts = Some st' \<Longrightarrow>
   loss_sum st' = loss_sum st \<and> nexamples st' = nexamples st"
  by (auto simp: buildTree_def Let_def split: if_splits Option.bind_splits)

lemma setTargetCounts_frame:
  assumes "setTargetCounts K shuffle st counts = Some st'"
  shows "loss_sum st' = loss_sum st \<and> nexamples st' = nexamples st"
proof -
  from assms obtain st1 where
    a: "(if loss (args st) = ns then initTableNegatives K shuffle st counts else Some st) = Some st1"
    and b: "(if loss (args st1) = hs then buildTree st1 counts else Some st1) = Some st'"
    by (auto simp: setTargetCounts_def split: if_splits Option.bind_splits)
  from a have "loss_sum st1 = loss_sum st \<and> nexamples st1 = nexamples st"
    by (auto split: if_splits dest: initTableNegatives_frame)
  moreover from b have "loss_sum st' = loss_sum st1 \<and> nexamples st' = nexamples st1"
    by (auto split: if_splits dest: buildTree_frame)
  ultimately show ?thesis by simp
qed

lemma updates_totals:
  "updates K st0 ls st \<Longrightarrow>
   loss_sum st = loss_sum st0 + sum_list ls \<and> nexamples st = nexamples st0 + int (length ls)"
proof (induction rule: updates.induct)
  case updates_none
  show ?case by simp
next
  case (updates_targets ls st shuffle counts st')
  from setTargetCounts_frame[OF updates_targets.hyps(2)] updates_targets.IH
  show ?case by simp
next
  case (updates_call ls st input h target lr l st1 st')
  from update_accumulates[OF updates_call.hyps(2-5)] updates_call.IH
  show ?case by simp
qed

lemma Model_new_counters:
  "Model_new K mem wi0 wo0 attn0 bias0 args0 = Some st0 \<Longrightarrow> loss_sum st0 = 0 \<and> nexamples st0 = 1"
  by (auto simp: Model_new_def split: Option.bind_splits)

text \<open>
  C1, as the code has it: the constructor starts the example counter at 1, so after \<open>n\<close>
  calls of \<open>update\<close> with non-empty input whose loss kernels returned \<open>l\<^sub>1, \<dots>, l\<^sub>n\<close>,
  \<open>getLoss\<close> returns \<open>(l\<^sub>1 + \<dots> + l\<^sub>n) / (n + 1)\<close>. Calls of \<open>setTargetCounts\<close> among
  the updates change nothing of this.
\<close>

theorem getLoss_after_updates:
  assumes "Model_new K mem wi0 wo0 attn0 bias0 args0 = Some st0"
    and "updates K st0 ls st"
  shows "getLoss st = Some (sum_list ls / (real (length ls) + 1))"
proof -
  from Model_new_counters[OF assms(1)] updates_totals[OF assms(2)]
  have "loss_sum st = sum_list ls" and "nexamples st = int (length ls) + 1" by simp_all
  then show ?thesis by (simp add: getLoss_def fdiv_def add.commute)
qed

theorem getLoss_after_updates_witness:
  "Model_new K0 (\<lambda>_ _. 0) [[0]] [[0], [0]] [[0]] [0] args_hs = Some engine7 \<and>
   setTargetCounts K0 rev engine7 [2, 1] = Some engine7_targets \<and>
   update K0 engine7_targets [0] 0 (1 / 10) = Some engine7_updated \<and>
   updates K0 engine7 [- log_entry K0 256] engine7_updated \<and>
   getLoss engine7_updated
     = Some (sum_list [- log_entry K0 256] / (real (length [- log_entry K0 256]) + 1))"
  using getLoss_after_updates[OF engine7_fresh engine7_updates] engine7_fresh
    engine7_setTargetCounts engine7_update engine7_updates
  by simp

text \<open>
  C1, as the claim states it, fails: after one call of \<open>update\<close> on a fresh engine with two
  classes and the full softmax, the kernel returns the loss
  \<open>l\<^sub>1 = - log_entry K0 256\<close>, the tabulated \<open>- log (1/2)\<close>, which is not 0, and \<open>getLoss\<close>
  is \<open>l\<^sub>1 / 2\<close>, not \<open>l\<^sub>1 / 1\<close>.
\<close>

theorem getLoss_counterexample:
  "Model_new K0 (\<lambda>_ _. 0) [[0]] [[0], [0]] [[0]] [0] args1 = Some engine6 \<and>
   lossKernel K0 (engine6\<lparr>hidden := [0]\<rparr>) 0 (1 / 10)
     = Some (- log_entry K0 256,
             engine6\<lparr>hidden := [0], grad := [0], output_vec := [1 / 2, 1 / 2]\<rparr>) \<and>
   update K0 engine6 [0] 0 (1 / 10) = Some engine6_updated \<and>
   updates K0 engine6 [- log_entry K0 256] engine6_updated \<and>
   - log_entry K0 256 > 0 \<and>
   getLoss engine6_updated = Some (- log_entry K0 256 / 2) \<and>
   getLoss engine6_updated
     \<noteq> Some (sum_list [- log_entry K0 256] / real (length [- log_entry K0 256]))"
  using engine6_fresh engine6_kernel engine6_update engine6_updates log_entry_256
  by (simp add: getLoss_def fdiv_def engine6_updated_def engine6_def engine1_def)

subsection \<open>Attention weights\<close>

text \<open>
  C2: the code at the input \<open>[(0, 0)]\<close> with the attention parameter at -100 and the bias
  at 0. The running maximum starts at 0, so the only logit is more than 50 below it, the
  only weight pushed is 0, the sum is 0, and the normalisation divides 0 by 0: the weights
  are not numbers in \<open>[0, 1]\<close> that sum to 1.
\<close>

theorem computeAttnHidden_all_clamped:
  "attention_loop engine3 [(0, 0)] 0 [] = Some ([- 100], 0) \<and>
   exp_loop [- 100] 0 [] 0 = ([0], 0) \<and>
   normalize_loop [0] 0 = None \<and>
   computeAttnHidden engine3 [(0, 0)] (hidden engine3) = None"
  by (simp add: computeAttnHidden_def engine3_def engine_defs prim_defs)

lemma attention_loop_length:
  "attention_loop st input mx att = Some (att', mx') \<Longrightarrow>
   length att' = length att + length input"
proof (induction input arbitrary: mx att)
  case Nil
  then show ?case by simp
next
  case (Cons p input)
  from Cons.prems obtain a b where
    "attention_loop st input (if a + b > mx then a + b else mx) (att @ [a + b]) = Some (att', mx')"
    by (auto simp: Let_def split: Option.bind_splits)
  from Cons.IH[OF this] show ?case by simp
qed

lemma exp_loop_result:
  "exp_loop as mx sm s =
     (sm @ map (\<lambda>a. if a - mx < - 50 then 0 else exp (a - mx)) as,
      s + sum_list (map (\<lambda>a. if a - mx < - 50 then 0 else exp (a - mx)) as))"
  by (induction as arbitrary: sm s) (simp_all add: Let_def)

lemma normalize_loop_Some:
  "normalize_loop sm s = Some qs \<Longrightarrow> sm \<noteq> [] \<Longrightarrow> s \<noteq> 0"
  by (cases sm) (auto simp: fdiv_def split: Option.bind_splits if_splits)

lemma normalize_loop_map:
  "normalize_loop sm s = Some qs \<Longrightarrow> qs = map (\<lambda>w. w / s) sm"
  by (induction sm arbitrary: qs) (auto simp: fdiv_def split: Option.bind_splits if_splits)

lemma normalized_weights:
  assumes "\<forall>w \<in> set ws. 0 \<le> w" and "sum_list ws \<noteq> 0"
  shows "sum_list (map (\<lambda>w. w / sum_list ws) ws) = 1 \<and>
         (\<forall>q \<in> set (map (\<lambda>w. w / sum_list ws) ws). 0 \<le> q \<and> q \<le> (1::real))"
proof -
  let ?s = "sum_list ws"
  from assms(1) have "0 \<le> ?s" by (simp add: sum_list_nonneg)
  with assms(2) have pos: "0 < ?s" by simp
  have "sum_list (map (\<lambda>w. w / c) ws) = sum_list ws / c" for c :: real
    by (induction ws) (simp_all add: add_divide_distrib)
  then have "sum_list (map (\<lambda>w. w / ?s) ws) = ?s / ?s" .
  with pos have "sum_list (map (\<lambda>w. w / ?s) ws) = 1" by simp
  moreover have "0 \<le> w / ?s \<and> w / ?s \<le> 1" if "w \<in> set ws" for w
  proof -
    from that assms(1) have "w \<le> ?s" by (simp add: member_le_sum_list)
    with that assms(1) pos show ?thesis by simp
  qed
  ultimately show ?thesis by auto
qed

text \<open>
  In exact arithmetic a zero sum is the only way the weights go wrong: whenever
  \<open>computeAttnHidden\<close> has a result on a non-empty input (so the sum of the clamped
  exponentials is not 0 and every index is in range), the weights lie in \<open>[0, 1]\<close> and
  sum to 1.
\<close>

lemma computeAttnHidden_weights_when_defined:
  assumes "computeAttnHidden st input hid = Some (h, sm)" and "input \<noteq> []"
  shows "sum_list sm = 1 \<and> (\<forall>w \<in> set sm. 0 \<le> w \<and> w \<le> 1)"
proof -
  from assms(1) obtain attention mx where
    a: "attention_loop st input 0 [] = Some (attention, mx)"
    and n: "normalize_loop (fst (exp_loop attention mx [] 0)) (snd (exp_loop attention mx [] 0)) = Some sm"
    by (auto simp: computeAttnHidden_def split: if_splits Option.bind_splits prod.splits)
  let ?ws = "map (\<lambda>a. if a - mx < - 50 then 0 else exp (a - mx)) attention"
  from attention_loop_length[OF a] assms(2) have ne: "?ws \<noteq> []" by auto
  from n have n': "normalize_loop ?ws (sum_list ?ws) = Some sm" by (simp add: exp_loop_result)
  from normalize_loop_Some[OF n' ne] have s: "sum_list ?ws \<noteq> 0" .
  have "\<forall>w \<in> set ?ws. 0 \<le> w" by auto
  from normalized_weights[OF this s] normalize_loop_map[OF n'] show ?thesis by simp
qed

subsection \<open>Update drivers\<close>

text \<open>
  C9: \<open>update\<close> with an empty input returns at once; the whole engine state, parameter
  matrices, loss accumulator, example counter and scratch vectors included, is unchanged,
  and no division happens on the way.
\<close>

theorem update_empty_input:
  "0 \<le> target \<Longrightarrow> target < osz st \<Longrightarrow> update K st [] target lr = Some st"
  by (simp add: update_def)

theorem update_empty_input_witness:
  "(0::int) \<le> 0 \<and> 0 < osz engine1 \<and> update K0 engine1 [] 0 (1 / 10) = Some engine1"
  using update_empty_input[of 0 engine1 K0 "1/10"] by (simp add: engine1_def)

lemma erase_loop_filter: "erase_loop target input = filter (\<lambda>p. fst p \<noteq> target) input"
  by (induction input) auto

text \<open>
  C8: when every pair of the input has its feature equal to the target, \<open>updateAttn\<close>
  returns early: the input comes back empty and \<open>wi\<close>, \<open>wo\<close>, \<open>attn\<close>, the bias, the loss
  accumulator and the example counter are unchanged.
\<close>

theorem updateAttn_only_target:
  assumes "\<forall>p \<in> set input. fst p = target" and "0 \<le> target" and "target < osz st"
  shows "\<exists>st'. updateAttn K st input target lr = Some ([], st') \<and>
           wi st' = wi st \<and> wo st' = wo st \<and> attn st' = attn st \<and> bias st' = bias st \<and>
           loss_sum st' = loss_sum st \<and> nexamples st' = nexamples st"
proof -
  from assms(1) have "erase_loop target input = []"
    by (simp add: erase_loop_filter filter_empty_conv)
  with assms(2,3) show ?thesis by (simp add: updateAttn_def)
qed

theorem updateAttn_only_target_witness:
  "(0::int) \<le> 0 \<and> 0 < osz engine1 \<and>
   (\<exists>st'. updateAttn K0 engine1 [(0, 0), (0, 1)] 0 (1 / 10) = Some ([], st') \<and>
           wi st' = wi engine1 \<and> wo st' = wo engine1 \<and> attn st' = attn engine1 \<and>
           bias st' = bias engine1 \<and>
           loss_sum st' = loss_sum engine1 \<and> nexamples st' = nexamples engine1)"
  using updateAttn_only_target[of "[(0, 0), (0, 1)]" 0 engine1 K0 "1/10"]
  by (simp add: engine1_def)

text \<open>
  C10: \<open>updateAttn\<close> and \<open>updateAttn2\<close> change their input argument: what the caller
  sees after the call is the input without the pairs whose feature equals the target.
\<close>

theorem updateAttn_erases_target:
  "(updateAttn K st input target lr = Some (input', st') \<longrightarrow>
      input' = filter (\<lambda>p. fst p \<noteq> target) input) \<and>
   (updateAttn2 K st input target lr = Some (input', st') \<longrightarrow>
      input' = filter (\<lambda>p. fst p \<noteq> target) input)"
  by (auto simp: updateAttn_def updateAttn2_def erase_loop_filter Let_def
      split: if_splits Option.bind_splits)

lemma engine2_updateAttn:
  "updateAttn K0 engine2 [(0, 0), (1, 0)] 0 (1 / 10) = Some ([(1, 0)], engine2_updated)"
  by (simp add: updateAttn_def computeAttnHidden_def computeAttnGradient_def
      lossKernel_def softmax_kernel_def
      computeOutputSoftmax_def log_tab_def engine2_def engine2_updated_def engine_defs
      prim_defs)

lemma engine2_updateAttn2:
  "updateAttn2 K0 engine2 [(0, 0), (1, 0)] 0 (1 / 10) = Some ([(1, 0)], engine2_updated)"
  by (simp add: updateAttn2_def computeAttnHidden2_def computeAttnGradient2_def
      lossKernel_def softmax_kernel_def
      computeOutputSoftmax_def log_tab_def engine2_def engine2_updated_def engine_defs
      prim_defs)

theorem updateAttn_erases_target_witness:
  "updateAttn K0 engine2 [(0, 0), (1, 0)] 0 (1 / 10) = Some ([(1, 0)], engine2_updated) \<and>
   updateAttn2 K0 engine2 [(0, 0), (1, 0)] 0 (1 / 10) = Some ([(1, 0)], engine2_updated) \<and>
   [(1, 0)] = filter (\<lambda>p. fst p \<noteq> 0) [(0 :: int, 0 :: int), (1, 0)]"
  using updateAttn_erases_target[of K0 engine2 "[(0, 0), (1, 0)]" 0 "1/10" "[(1, 0)]" engine2_updated]
    engine2_updateAttn engine2_updateAttn2
  by simp

subsection \<open>The cursor of negatives\<close>

lemma cursor_in_range: "pos < (n::nat) \<Longrightarrow> (pos + 1) mod n < n"
  by (cases "n = 0") simp_all

lemma getNegative_loop_finds:
  "pos < length negs \<Longrightarrow> negs ! ((pos + k) mod length negs) \<noteq> target \<Longrightarrow>
   \<exists>negative pos'. getNegative_loop negs pos target = Some (negative, pos') \<and>
      negative \<noteq> target \<and> negative \<in> set negs \<and> pos' < length negs"
proof (induction k arbitrary: pos)
  case 0
  with cursor_in_range[of pos "length negs"] show ?case
    by (subst getNegative_loop.simps) (auto simp: Let_def)
next
  case (Suc k)
  show ?case
  proof (cases "target = negs ! pos")
    case False
    with Suc.prems(1) cursor_in_range[of pos "length negs"] show ?thesis
      by (subst getNegative_loop.simps) (auto simp: Let_def)
  next
    case True
    let ?p = "(pos + 1) mod length negs"
    from Suc.prems(1) have lt: "?p < length negs" by (rule cursor_in_range)
    have "(?p + k) mod length negs = (pos + Suc k) mod length negs"
      by (simp add: mod_add_left_eq)
    with Suc.prems(2) have "negs ! ((?p + k) mod length negs) \<noteq> target" by simp
    from Suc.IH[OF lt this] obtain negative pos' where
      r: "getNegative_loop negs ?p target = Some (negative, pos')"
         "negative \<noteq> target" "negative \<in> set negs" "pos' < length negs" by blast
    have "getNegative_loop negs pos target = getNegative_loop negs ?p target"
      using True Suc.prems(1) by (subst getNegative_loop.simps) (simp add: Let_def)
    with r show ?thesis by simp
  qed
qed

text \<open>
  C6: when the table of negatives is non-empty and holds a class other than the target,
  and the cursor is inside the table (it starts at 0 and every call leaves it there),
  \<open>getNegative\<close> terminates and returns a class of the table different from the target.
\<close>

theorem getNegative_returns_other:
  assumes "negatives st \<noteq> []"
    and "\<exists>c \<in> set (negatives st). c \<noteq> target"
    and "negpos st < length (negatives st)"
  shows "\<exists>negative st'. getNegative st target = Some (negative, st') \<and>
           negative \<noteq> target \<and> negative \<in> set (negatives st) \<and>
           negatives st' = negatives st \<and> negpos st' < length (negatives st')"
proof -
  let ?n = "length (negatives st)"
  from assms(2) obtain j where j: "j < ?n" "negatives st ! j \<noteq> target"
    by (auto simp: in_set_conv_nth)
  define k where "k = (j + ?n - negpos st) mod ?n"
  have "(negpos st + k) mod ?n = (negpos st + (j + ?n - negpos st)) mod ?n"
    unfolding k_def by (simp add: mod_add_right_eq)
  also from assms(3) have "negpos st + (j + ?n - negpos st) = j + ?n" by simp
  also from j(1) have "(j + ?n) mod ?n = j" by simp
  finally have "negatives st ! ((negpos st + k) mod ?n) \<noteq> target" using j(2) by simp
  from getNegative_loop_finds[OF assms(3) this] show ?thesis
    by (auto simp: getNegative_def)
qed

theorem getNegative_returns_other_witness:
  "getNegative engine4 0 = Some (1, engine4\<lparr>negpos := 3\<rparr>) \<and>
   (\<exists>negative st'. getNegative engine4 0 = Some (negative, st') \<and>
           negative \<noteq> 0 \<and> negative \<in> set (negatives engine4) \<and>
           negatives st' = negatives engine4 \<and> negpos st' < length (negatives st'))"
proof
  show "getNegative engine4 0 = Some (1, engine4\<lparr>negpos := 3\<rparr>)"
    by (simp add: getNegative_def engine4_def getNegative_loop.simps)
  show "\<exists>negative st'. getNegative engine4 0 = Some (negative, st') \<and>
           negative \<noteq> 0 \<and> negative \<in> set (negatives engine4) \<and>
           negatives st' = negatives engine4 \<and> negpos st' < length (negatives st')"
    by (rule getNegative_returns_other) (simp_all add: engine4_def)
qed

subsection \<open>Binary logistic loss at learning rate 0\<close>

lemma map2_add_zero: "length v = length u \<Longrightarrow> map2 (\<lambda>x y. x) v u = v"
  by (induction v u rule: list_induct2) simp_all

lemma Vector_addRow_zero:
  "0 \<le> r \<Longrightarrow> r < int (length M) \<Longrightarrow> length (M ! nat r) = length v \<Longrightarrow>
   Vector_addRow v M r 0 = Some v"
  by (simp add: Vector_addRow_def nth_chk_def map2_add_zero)

lemma Matrix_addRow_zero:
  "0 \<le> r \<Longrightarrow> r < int (length M) \<Longrightarrow> length (M ! nat r) = length v \<Longrightarrow>
   Matrix_addRow M v r 0 = Some M"
  by (simp add: Matrix_addRow_def nth_chk_def upd_chk_def map2_add_zero)

lemma trunc_in_range:
  assumes "0 \<le> x" and "x \<le> real_of_int n"
  shows "0 \<le> trunc x \<and> trunc x \<le> n"
proof -
  from assms(1) have t: "trunc x = \<lfloor>x\<rfloor>" by (simp add: trunc_def)
  from assms(1) have "0 \<le> \<lfloor>x\<rfloor>" by simp
  moreover from assms(2) have "\<lfloor>x\<rfloor> \<le> n" by (simp add: floor_le_iff)
  ultimately show ?thesis using t by simp
qed

lemma sigmoid_entry_bounds: "0 \<le> sigmoid_entry K i \<and> sigmoid_entry K i \<le> 1"
proof -
  have "0 \<le> 1 / (1 + e) \<and> 1 / (1 + e) \<le> 1" if "0 < e" for e :: real
    using that by (simp add: divide_le_eq)
  from this[OF exp_gt_zero] show ?thesis unfolding sigmoid_entry_def Let_def by blast
qed

lemma sigmoid_total:
  assumes "initSigmoid K = Some (t_sigmoid st)"
    and "0 < SIGMOID_TABLE_SIZE K" and "0 < MAX_SIGMOID K"
  shows "\<exists>s. sigmoid K st d = Some s \<and> 0 \<le> s \<and> s \<le> 1"
proof -
  let ?M = "real_of_int (MAX_SIGMOID K)" and ?S = "real_of_int (SIGMOID_TABLE_SIZE K)"
  from assms(1,2) have tab: "t_sigmoid st = map (sigmoid_entry K) [0 ..< nat (SIGMOID_TABLE_SIZE K + 1)]"
    by (auto simp: initSigmoid_def split: if_splits)
  consider "d < - ?M" | "d > ?M" | "- ?M \<le> d" "d \<le> ?M" by linarith
  then show ?thesis
  proof cases
    case 1
    then show ?thesis by (simp add: sigmoid_def)
  next
    case 2
    then show ?thesis by (auto simp: sigmoid_def)
  next
    case 3
    let ?q = "(d + ?M) * ?S / ?M"
    from assms(3) have M: "0 < ?M" by simp
    from assms(2) have S: "0 < ?S" by simp
    from 3 S have "0 \<le> (d + ?M) * ?S" by simp
    with M have q0: "0 \<le> ?q" by simp
    from 3 S have "(d + ?M) * ?S \<le> (2 * ?M) * ?S" by (intro mult_right_mono) simp_all
    with M have q1: "?q \<le> 2 * ?S" by (simp add: pos_divide_le_eq mult.assoc mult.left_commute mult.commute)
    from q0 q1 have "0 \<le> ?q / 2" "?q / 2 \<le> ?S" by simp_all
    from trunc_in_range[OF this] have i: "0 \<le> trunc (?q / 2)" "trunc (?q / 2) \<le> SIGMOID_TABLE_SIZE K"
      by simp_all
    then have "nth_chk (t_sigmoid st) (trunc (?q / 2)) = Some (sigmoid_entry K (nat (trunc (?q / 2))))"
      by (simp add: nth_chk_def tab)
    with 3 M sigmoid_entry_bounds[of K "nat (trunc (?q / 2))"] show ?thesis
      by (simp add: sigmoid_def fdiv_def)
  qed
qed

lemma log_tab_total:
  assumes "initLog K = Some (t_log st)" and "0 < LOG_TABLE_SIZE K" and "0 \<le> x" and "x \<le> 1"
  shows "\<exists>l. log_tab K st x = Some l"
proof -
  let ?L = "real_of_int (LOG_TABLE_SIZE K)"
  from assms(1,2) have tab: "t_log st = map (log_entry K) [0 ..< nat (LOG_TABLE_SIZE K + 1)]"
    by (auto simp: initLog_def split: if_splits)
  from assms(2,3,4) have "0 \<le> x * ?L" "x * ?L \<le> ?L"
    by (simp_all add: mult_left_le_one_le)
  from trunc_in_range[OF this] show ?thesis
    using assms(4) by (simp add: log_tab_def nth_chk_def tab)
qed

text \<open>
  C7: for an output index \<open>t\<close> in range and either label, \<open>binaryLogistic t y 0\<close> returns
  the engine state it was given (so \<open>wo\<close> and \<open>grad\<close> are unchanged) and the loss
  \<open>- log s\<close> for \<open>y = 1\<close>, \<open>- log (1 - s)\<close> for \<open>y = 0\<close>, with \<open>s\<close> the tabulated sigmoid of
  the dot product of row \<open>t\<close> of \<open>wo\<close> with the hidden vector and \<open>log\<close> the tabulated
  logarithm. The tables are those the constructor builds, for positive model constants.
\<close>

theorem binaryLogistic_zero_lr:
  assumes "0 \<le> t" and "t < int (length (wo st))"
    and "length (wo st ! nat t) = length (hidden st)"
    and "length (grad st) = length (hidden st)"
    and "initSigmoid K = Some (t_sigmoid st)" and "initLog K = Some (t_log st)"
    and "0 < SIGMOID_TABLE_SIZE K" and "0 < MAX_SIGMOID K" and "0 < LOG_TABLE_SIZE K"
  shows "\<exists>d s l. Matrix_dotRow (wo st) (hidden st) t = Some d \<and> sigmoid K st d = Some s \<and>
           log_tab K st (if y then s else 1 - s) = Some l \<and>
           binaryLogistic K st t y 0 = Some (- l, st)"
proof -
  from assms(1-3) obtain d where d: "Matrix_dotRow (wo st) (hidden st) t = Some d"
    by (simp add: Matrix_dotRow_def nth_chk_def)
  from sigmoid_total[OF assms(5,7,8)] obtain s where
    s: "sigmoid K st d = Some s" "0 \<le> s" "s \<le> 1" by blast
  then have "0 \<le> (if y then s else 1 - s)" "(if y then s else 1 - s) \<le> 1" by simp_all
  from log_tab_total[OF assms(6,9) this] obtain l where
    l: "log_tab K st (if y then s else 1 - s) = Some l" by blast
  from assms(1-4) have g: "Vector_addRow (grad st) (wo st) t 0 = Some (grad st)"
    by (simp add: Vector_addRow_zero)
  from assms(1-3) have w: "Matrix_addRow (wo st) (hidden st) t 0 = Some (wo st)"
    by (simp add: Matrix_addRow_zero)
  have same: "log_tab K (st\<lparr>grad := grad st, wo := wo st\<rparr>) x = log_tab K st x" for x
    by (simp add: log_tab_def)
  from d s(1) l g w have "binaryLogistic K st t y 0 = Some (- l, st)"
    by (cases y) (simp_all add: binaryLogistic_def same)
  with d s(1) l show ?thesis by blast
qed

theorem binaryLogistic_zero_lr_witness:
  "\<exists>d s l. Matrix_dotRow (wo engine1) (hidden engine1) 0 = Some d \<and> sigmoid K0 engine1 d = Some s \<and>
           log_tab K0 engine1 (if True then s else 1 - s) = Some l \<and>
           binaryLogistic K0 engine1 0 True 0 = Some (- l, engine1)"
  by (rule binaryLogistic_zero_lr)
     (simp_all add: engine1_def K0_def initSigmoid_def initLog_def)

subsection \<open>Rounding\<close>

lemma nearest_even_eval:
  assumes "\<bar>y - real_of_int m\<bar> < 1 / 2"
  shows "nearest_even y = m"
proof -
  from assms have b: "real_of_int m - 1 / 2 < y" "y < real_of_int m + 1 / 2" by linarith+
  consider "\<lfloor>y\<rfloor> = m" | "\<lfloor>y\<rfloor> = m - 1"
  proof -
    from b have "m - 1 \<le> \<lfloor>y\<rfloor>" "\<lfloor>y\<rfloor> < m + 1" by linarith+
    then have "\<lfloor>y\<rfloor> = m \<or> \<lfloor>y\<rfloor> = m - 1" by linarith
    with that show thesis by blast
  qed
  then show ?thesis
  proof cases
    case 1
    with b show ?thesis by (simp add: nearest_even_def Let_def)
  next
    case 2
    with b show ?thesis by (simp add: nearest_even_def Let_def)
  qed
qed

lemma floor_log2:
  assumes "2 powi e \<le> x" and "x < 2 powi (e + 1)"
  shows "\<lfloor>log 2 x\<rfloor> = e"
proof -
  have p: "(2::real) powi k = 2 powr real_of_int k" for k
    by (simp add: powr_real_of_int')
  from assms(1) have pos: "0 < x" by (smt (verit) zero_less_power_int zero_less_numeral)
  from assms pos have "real_of_int e \<le> log 2 x" "log 2 x < real_of_int (e + 1)"
    by (simp_all add: p le_log_iff log_less_iff)
  then show ?thesis by (simp add: floor_eq_iff)
qed

lemma round_to_eval:
  assumes "2 powi e \<le> \<bar>x\<bar>" and "\<bar>x\<bar> < 2 powi (e + 1)"
    and "\<bar>x / 2 powi (e - int p + 1) - real_of_int m\<bar> < 1 / 2"
  shows "round_to p x = real_of_int m * 2 powi (e - int p + 1)"
proof -
  from assms(1) have "x \<noteq> 0" by (smt (verit) zero_less_power_int zero_less_numeral abs_zero)
  moreover from floor_log2[OF assms(1,2)] have "\<lfloor>log 2 \<bar>x\<bar>\<rfloor> = e" .
  moreover from nearest_even_eval[OF assms(3)] have "nearest_even (x / 2 powi (e - int p + 1)) = m" .
  ultimately show ?thesis by (simp add: round_to_def Let_def)
qed

lemma nearest_even_int: "nearest_even (real_of_int n) = n"
  using nearest_even_eval[of "real_of_int n" n] by simp

lemma nearest_even_tie:
  "nearest_even (real_of_int m + 1 / 2) = (if even m then m else m + 1)"
proof -
  have "\<lfloor>real_of_int m + 1 / 2\<rfloor> = m" by linarith
  then show ?thesis by (simp add: nearest_even_def Let_def)
qed

lemma round_to_tie:
  assumes "2 powi e \<le> \<bar>x\<bar>" and "\<bar>x\<bar> < 2 powi (e + 1)"
    and "x / 2 powi (e - int p + 1) = real_of_int m + 1 / 2"
  shows "round_to p x = real_of_int (if even m then m else m + 1) * 2 powi (e - int p + 1)"
proof -
  from assms(1) have "x \<noteq> 0" by (smt (verit) zero_less_power_int zero_less_numeral abs_zero)
  moreover from floor_log2[OF assms(1,2)] have "\<lfloor>log 2 \<bar>x\<bar>\<rfloor> = e" .
  moreover from nearest_even_tie[of m] assms(3)
  have "nearest_even (x / 2 powi (e - int p + 1)) = (if even m then m else m + 1)" by simp
  ultimately show ?thesis by (simp add: round_to_def Let_def)
qed

lemma log2_bounds:
  assumes "0 < x"
  shows "2 powi \<lfloor>log 2 x\<rfloor> \<le> x" and "x < 2 powi (\<lfloor>log 2 x\<rfloor> + 1)"
proof -
  have p: "(2::real) powi k = 2 powr real_of_int k" for k
    by (simp add: powr_real_of_int')
  from assms have "2 powr real_of_int \<lfloor>log 2 x\<rfloor> \<le> x \<and> x < 2 powr real_of_int (\<lfloor>log 2 x\<rfloor> + 1)"
    using floor_log_eq_powr_iff[of x 2 "\<lfloor>log 2 x\<rfloor>"] by simp
  then show "2 powi \<lfloor>log 2 x\<rfloor> \<le> x" and "x < 2 powi (\<lfloor>log 2 x\<rfloor> + 1)"
    unfolding p by simp_all
qed

lemma round_to_exact:
  assumes "x = real_of_int m * 2 powi k" and "\<bar>m\<bar> < 2 ^ p"
  shows "round_to p x = x"
proof (cases "x = 0")
  case True
  then show ?thesis by (simp add: round_to_def)
next
  case False
  define e where "e = \<lfloor>log 2 \<bar>x\<bar>\<rfloor>"
  from False have "0 < \<bar>x\<bar>" by simp
  from log2_bounds(1)[OF this] have lo: "2 powi e \<le> \<bar>x\<bar>" by (simp add: e_def)
  have "\<bar>x\<bar> = real_of_int \<bar>m\<bar> * 2 powi k" by (simp add: assms(1) abs_mult)
  also have "\<dots> < 2 ^ p * 2 powi k"
  proof -
    from assms(2) have "real_of_int \<bar>m\<bar> < real_of_int (2 ^ p)" by (simp only: of_int_less_iff)
    then have "real_of_int \<bar>m\<bar> < 2 ^ p" by simp
    moreover have "(0::real) < 2 powi k" by simp
    ultimately show ?thesis by (simp only: mult_strict_right_mono)
  qed
  also have "\<dots> = 2 powi (int p + k)" by (simp add: power_int_add)
  finally have "(2::real) powi e < 2 powi (int p + k)" using lo by linarith
  then have "e < int p + k"
    using power_int_increasing[of "int p + k" e "2::real"] by fastforce
  define d where "d = nat (k - (e - int p + 1))"
  with \<open>e < int p + k\<close> have d: "k = (e - int p + 1) + int d" by simp
  define u :: real where "u = 2 powi (e - int p + 1)"
  have u: "u \<noteq> 0" by (simp add: u_def)
  have "2 powi k = u * 2 ^ d"
    unfolding u_def by (subst d) (simp add: power_int_add)
  then have xu: "x = real_of_int (m * 2 ^ d) * u" by (simp add: assms(1))
  with u have "x / u = real_of_int (m * 2 ^ d)" by simp
  then have "nearest_even (x / u) = m * 2 ^ d" by (simp only: nearest_even_int)
  then have "real_of_int (nearest_even (x / u)) * u = x" using xu by simp
  moreover from False have "round_to p x = real_of_int (nearest_even (x / u)) * u"
    by (simp add: round_to_def Let_def e_def u_def)
  ultimately show ?thesis by simp
qed

lemma round_to_int:
  "\<bar>m\<bar> < 2 ^ p \<Longrightarrow> round_to p (real_of_int m) = real_of_int m"
  using round_to_exact[of "real_of_int m" m 0 p] by simp

lemma to_float_nat:
  assumes "j \<le> 2 ^ 24"
  shows "to_float (real j) = real j"
proof (cases "j = 2 ^ 24")
  case True
  then show ?thesis
    using round_to_exact[of "real j" "2 ^ 23" 1 24] by (simp add: to_float_def)
next
  case False
  with assms have "\<bar>int j\<bar> < 2 ^ 24" by simp
  from round_to_int[OF this] show ?thesis by (simp add: to_float_def)
qed

lemma to_float_numeral:
  "numeral n < (2::int) ^ 24 \<Longrightarrow> to_float (numeral n) = numeral n"
  using round_to_int[of "numeral n" 24] by (simp add: to_float_def)

lemma to_double_numeral:
  "numeral n < (2::int) ^ 53 \<Longrightarrow> to_double (numeral n) = numeral n"
  using round_to_int[of "numeral n" 53] by (simp add: to_double_def)

lemma to_float_0_1: "to_float 0 = 0" "to_float 1 = 1"
  using round_to_int[of 0 24] round_to_int[of 1 24] by (simp_all add: to_float_def)

lemma to_double_0_1: "to_double 0 = 0" "to_double 1 = 1"
  using round_to_int[of 0 53] round_to_int[of 1 53] by (simp_all add: to_double_def)

lemmas exact_roundings = to_float_numeral to_double_numeral to_float_0_1 to_double_0_1

subsection \<open>The table of negatives\<close>

lemma count_list_replicate: "count_list (replicate n x) y = (if x = y then n else 0)"
  by (induction n) auto

lemma count_list_rev: "count_list (rev xs) c = count_list xs c"
  by (induction xs) simp_all

text \<open>
  The inner loop runs once for every integer \<open>j \<ge> 0\<close> below its bound: up to \<open>2\<^sup>2\<^sup>4\<close> the
  counter converts to a \<^verbatim>\<open>float\<close> without rounding, so that is the ceiling of the bound.
\<close>

lemma push_loop_replicate:
  assumes "x \<le> 2 ^ 24" and "j \<le> nat \<lceil>x\<rceil>"
  shows "push_loop x i j negs = Some (negs @ replicate (nat \<lceil>x\<rceil> - j) i)"
  using assms(2)
proof (induction "nat \<lceil>x\<rceil> - j" arbitrary: j negs)
  case 0
  from assms(1) have c: "\<lceil>x\<rceil> \<le> 16777216" by (simp add: ceiling_le_iff)
  from 0 have j: "j = nat \<lceil>x\<rceil>" by linarith
  with c have "j \<le> 16777216" by linarith
  then have "j \<le> 2 ^ 24" by simp
  then have f: "to_float (real j) = real j" by (rule to_float_nat)
  from j have "\<lceil>x\<rceil> \<le> int j" by simp
  then have "x \<le> real j" by (simp add: ceiling_le_iff)
  moreover from j have "nat \<lceil>x\<rceil> - j = 0" by simp
  ultimately show ?case using f by (subst push_loop.simps) simp
next
  case (Suc n)
  from assms(1) have c: "\<lceil>x\<rceil> \<le> 16777216" by (simp add: ceiling_le_iff)
  from Suc.hyps(2) have lt: "int j < \<lceil>x\<rceil>" by linarith
  with c have "j \<le> 16777216" by linarith
  then have "j \<le> 2 ^ 24" by simp
  then have f: "to_float (real j) = real j" by (rule to_float_nat)
  from lt have "real j < x" by (simp add: less_ceiling_iff)
  moreover from Suc.hyps(2) have n: "n = nat \<lceil>x\<rceil> - (j + 1)" and "j + 1 \<le> nat \<lceil>x\<rceil>" by simp_all
  from Suc.hyps(1)[OF this, of "negs @ [i]"]
  have "push_loop x i (j + 1) (negs @ [i]) = Some ((negs @ [i]) @ replicate n i)"
    by (simp only: n)
  ultimately show ?case
    using f Suc.hyps(2)[symmetric] by (subst push_loop.simps) (simp add: replicate_append_same)
qed

lemma table_bound_value:
  assumes "0 \<le> sint cnt" and "z \<noteq> 0"
  shows "table_bound K z cnt =
         Some (to_float (to_float (to_float (to_double (sqrt (to_double (real_of_int (sint cnt)))))
                                    * to_float (real_of_int (NEGATIVE_TABLE_SIZE K))) / z))"
  using assms by (simp add: table_bound_def pow_half_def fdiv_def del: of_int_sint)

lemma table_loop_counts:
  assumes "\<forall>c \<in> set counts. \<exists>q. table_bound K z c = Some q \<and> q \<le> 2 ^ 24"
  shows "\<exists>negs'. table_loop K z counts i negs = Some negs' \<and>
           (\<forall>k. count_list negs' (int k) =
                count_list negs (int k) +
                (if i \<le> k \<and> k < i + length counts
                 then nat \<lceil>the (table_bound K z (counts ! (k - i)))\<rceil>
                 else 0))"
  using assms
proof (induction counts arbitrary: i negs)
  case Nil
  show ?case by simp
next
  case (Cons cnt counts)
  let ?w = "\<lambda>c. nat \<lceil>the (table_bound K z c)\<rceil>"
  from Cons.prems obtain q where q: "table_bound K z cnt = Some q" "q \<le> 2 ^ 24"
    and rest: "\<forall>c \<in> set counts. \<exists>q. table_bound K z c = Some q \<and> q \<le> 2 ^ 24"
    by auto
  from push_loop_replicate[OF q(2), of 0 "int i" negs]
  have pl: "push_loop q (int i) 0 negs = Some (negs @ replicate (nat \<lceil>q\<rceil>) (int i))" by simp
  from Cons.IH[OF rest, of "i + 1" "negs @ replicate (nat \<lceil>q\<rceil>) (int i)"] obtain negs' where
    r: "table_loop K z counts (i + 1) (negs @ replicate (nat \<lceil>q\<rceil>) (int i)) = Some negs'"
    and c: "\<And>k. count_list negs' (int k) =
              count_list (negs @ replicate (nat \<lceil>q\<rceil>) (int i)) (int k) +
              (if i + 1 \<le> k \<and> k < i + 1 + length counts then ?w (counts ! (k - (i + 1))) else 0)"
    by blast
  from q(1) pl r have "table_loop K z (cnt # counts) i negs = Some negs'" by simp
  moreover have "count_list negs' (int k) =
        count_list negs (int k) +
        (if i \<le> k \<and> k < i + length (cnt # counts) then ?w ((cnt # counts) ! (k - i)) else 0)"
    for k
  proof -
    have p: "count_list (negs @ replicate (nat \<lceil>q\<rceil>) (int i)) (int k)
             = count_list negs (int k) + (if k = i then ?w cnt else 0)"
      using q(1) by (simp add: count_list_replicate)
    consider "k < i" | "k = i" | "i < k" by linarith
    then show ?thesis
    proof cases
      case 1
      then show ?thesis unfolding c[of k] p by simp
    next
      case 2
      then show ?thesis unfolding c[of k] p by simp
    next
      case 3
      then have "k - i = Suc (k - (i + 1))" by simp
      then have "(cnt # counts) ! (k - i) = counts ! (k - (i + 1))" by simp
      moreover from 3 have "(i + 1 \<le> k \<and> k < i + 1 + length counts)
          = (i \<le> k \<and> k < i + length (cnt # counts))"
        by auto
      ultimately show ?thesis unfolding c[of k] p using 3 by simp
    qed
  qed
  ultimately show ?case by blast
qed

text \<open>
  C5, as the code has it. The program computes the bound of the inner loop in single
  precision: \<open>c\<^sub>i\<close>, the square root of the count, is rounded to a \<^verbatim>\<open>float\<close>, so are its product
  with \<open>NEGATIVE_TABLE_SIZE\<close> and the quotient of that by \<open>z\<close>, the \<^verbatim>\<open>float\<close> in which the square
  roots were summed. On a fresh engine, for counts that are not negative, with \<open>z\<close> not 0
  and no bound above \<open>2\<^sup>2\<^sup>4\<close>, class \<open>i\<close> occurs in the table as often as the ceiling of that
  rounded quotient says, and the call returns. The shuffle permutes the table and changes
  no number of occurrences.
\<close>

theorem initTableNegatives_counts:
  assumes "\<forall>xs c. count_list (shuffle xs) c = count_list xs c"
    and "\<forall>c \<in> set counts. 0 \<le> sint c"
    and "z_loop counts 0 = Some z" and "z \<noteq> 0"
    and "\<forall>c \<in> set counts.
           to_float (to_float (to_float (to_double (sqrt (to_double (real_of_int (sint c)))))
                               * to_float (real_of_int (NEGATIVE_TABLE_SIZE K))) / z) \<le> 2 ^ 24"
    and "negatives st = []"
  shows "\<exists>st'. initTableNegatives K shuffle st counts = Some st' \<and>
           (\<forall>i < length counts.
              count_list (negatives st') (int i) =
              nat \<lceil>to_float (to_float (to_float (to_double (sqrt (to_double
                                     (real_of_int (sint (counts ! i))))))
                                   * to_float (real_of_int (NEGATIVE_TABLE_SIZE K))) / z)\<rceil>)"
proof -
  let ?q = "\<lambda>c. to_float (to_float (to_float (to_double (sqrt (to_double (real_of_int (sint c)))))
                                * to_float (real_of_int (NEGATIVE_TABLE_SIZE K))) / z)"
  have tb: "table_bound K z c = Some (?q c)" if "c \<in> set counts" for c
    using that assms(2,4) by (intro table_bound_value) simp_all
  with assms(5) have "\<forall>c \<in> set counts. \<exists>q. table_bound K z c = Some q \<and> q \<le> 2 ^ 24"
    by (simp del: of_int_sint)
  from table_loop_counts[OF this, of 0 "negatives st"] obtain negs' where
    t: "table_loop K z counts 0 (negatives st) = Some negs'"
    and c: "\<And>k. count_list negs' (int k) =
              count_list (negatives st) (int k) +
              (if 0 \<le> k \<and> k < 0 + length counts
               then nat \<lceil>the (table_bound K z (counts ! (k - 0)))\<rceil>
               else 0)"
    by blast
  from assms(3) t
  have "initTableNegatives K shuffle st counts = Some (st\<lparr>negatives := shuffle negs'\<rparr>)"
    by (simp add: initTableNegatives_def)
  moreover have "count_list (shuffle negs') (int i) = nat \<lceil>?q (counts ! i)\<rceil>"
    if "i < length counts" for i
  proof -
    from that have "counts ! i \<in> set counts" by simp
    from tb[OF this] that assms(1,6) c[of i] show ?thesis by (simp del: of_int_sint)
  qed
  ultimately show ?thesis by (simp del: of_int_sint)
qed

lemma sqrt_121: "sqrt 121 = 11"
  by (rule real_sqrt_unique) simp_all

lemma float_20000000: "to_float 20000000 = 20000000"
  using round_to_exact[of 20000000 78125 8 24] by (simp add: to_float_def)

lemma float_110000000: "to_float 110000000 = 110000000"
  using round_to_exact[of 110000000 859375 7 24] by (simp add: to_float_def)

lemma float_20000000_13: "to_float (20000000 / 13) = 3076923 / 2"
  using round_to_eval[of 20 "20000000 / 13" 24 12307692] by (simp add: to_float_def)

lemma float_110000000_13: "to_float (110000000 / 13) = 8461538"
  using round_to_eval[of 23 "110000000 / 13" 24 8461538] by (simp add: to_float_def)

lemmas roundings_4_121 =
  exact_roundings sqrt_121 float_20000000 float_110000000 float_20000000_13 float_110000000_13

text \<open>
  The counts 4 and 121, with the square roots 2 and 11 and \<open>z = 13\<close>: the rounded quotient
  of class 1 is 8461538, the float nearest to 8461538.46..., and class 1 occurs 8461538
  times; that of class 0 is 1538461.5, and class 0 occurs 1538462 times.
\<close>

theorem initTableNegatives_counts_witness:
  "z_loop [4, 121] 0 = Some 13 \<and>
   (\<exists>st'. initTableNegatives K0 rev engine1 [4, 121] = Some st' \<and>
          count_list (negatives st') 0 = 1538462 \<and> count_list (negatives st') 1 = 8461538)"
proof -
  have sh: "\<forall>xs c. count_list (rev xs) c = count_list xs (c :: int)"
    by (simp add: count_list_rev)
  have nn: "\<forall>c \<in> set [4, 121 :: int64]. 0 \<le> sint c" by simp
  have z: "z_loop [4, 121] 0 = Some 13"
    by (simp add: pow_half_def roundings_4_121)
  have nz: "(13 :: real) \<noteq> 0" by simp
  have le: "\<forall>c \<in> set [4, 121 :: int64].
             to_float (to_float (to_float (to_double (sqrt (to_double (real_of_int (sint c)))))
                                 * to_float (real_of_int (NEGATIVE_TABLE_SIZE K0))) / 13) \<le> 2 ^ 24"
    by (simp add: K0_def roundings_4_121)
  have fresh: "negatives engine1 = []" by (simp add: engine1_def)
  from initTableNegatives_counts[OF sh nn z nz le fresh]
  obtain st' where s: "initTableNegatives K0 rev engine1 [4, 121] = Some st'"
    and c: "\<forall>i < length [4, 121 :: int64].
              count_list (negatives st') (int i) =
              nat \<lceil>to_float (to_float (to_float (to_double (sqrt (to_double
                                     (real_of_int (sint ([4, 121 :: int64] ! i))))))
                                   * to_float (real_of_int (NEGATIVE_TABLE_SIZE K0))) / 13)\<rceil>"
    by blast
  from c[rule_format, of 0] have "count_list (negatives st') 0 = 1538462"
    by (simp add: K0_def roundings_4_121)
  moreover from c[rule_format, of 1] have "count_list (negatives st') 1 = 8461538"
    by (simp add: K0_def roundings_4_121)
  ultimately show ?thesis using s z by blast
qed

lemma float_10000000_3: "to_float (10000000 / 3) = 13333333 / 4"
  using round_to_eval[of 21 "10000000 / 3" 24 13333333] by (simp add: to_float_def)

lemma ex_table:
  "initTableNegatives K0 rev engine1 [1, 1, 1]
   = Some (engine1\<lparr>negatives :=
             rev (replicate 3333334 0 @ replicate 3333334 1 @ replicate 3333334 2)\<rparr>)"
  by (simp add: initTableNegatives_def pow_half_def table_bound_def fdiv_def push_loop_replicate
        exact_roundings float_10000000_3 K0_def engine1_def)

text \<open>
  C5, as the claim states it, fails: with the counts \<open>[1, 1, 1]\<close> and a table size of
  10000000 the rounded quotient is 3333333.25, class 0 occurs 3333334 times, and the floor
  of the claim is 3333333.
\<close>

theorem initTableNegatives_counterexample:
  "initTableNegatives K0 rev engine1 [1, 1, 1]
     = Some (engine1\<lparr>negatives :=
               rev (replicate 3333334 0 @ replicate 3333334 1 @ replicate 3333334 2)\<rparr>) \<and>
   count_list (rev (replicate 3333334 0 @ replicate 3333334 1 @ replicate 3333334 2)) (0 :: int)
     = 3333334 \<and>
   nat \<lfloor>sqrt (real_of_int (sint ([1, 1, 1 :: int64] ! 0)))
          * real_of_int (NEGATIVE_TABLE_SIZE K0)
          / (\<Sum>c\<leftarrow>[1, 1, 1 :: int64]. sqrt (real_of_int (sint c)))\<rfloor> = 3333333"
  using ex_table by (simp add: count_list_rev count_list_replicate K0_def)

text \<open>
  The ceiling of the rounded quotient is not tied to the floor of the exact one. With the
  single count 47089, the square of 217, the exact quotient is 10000000; the product
  2170000000 is rounded to 2169999872, the quotient to 9999999, and class 0 occurs
  9999999 times, once less than the floor. With the counts 81 and 49729, the squares of
  9 and 223, the exact quotient of class 1 is 9612068.96...; the product 2230000000 is
  rounded to 2230000128, the quotient to 9612070, and class 1 occurs 9612070 times, twice
  more than the floor.
\<close>

lemma sqrt_squares: "sqrt 47089 = 217" "sqrt 81 = 9" "sqrt 49729 = 223"
  by (rule real_sqrt_unique; simp)+

lemma float_2170000000: "to_float 2170000000 = 2169999872"
  using round_to_tie[of 31 2170000000 24 8476562] by (simp add: to_float_def)

lemma float_2169999872_217: "to_float (2169999872 / 217) = 9999999"
  using round_to_eval[of 23 "2169999872 / 217" 24 9999999] by (simp add: to_float_def)

lemma float_90000000: "to_float 90000000 = 90000000"
  using round_to_exact[of 90000000 703125 7 24] by (simp add: to_float_def)

lemma float_90000000_232: "to_float (11250000 / 29) = 12413793 / 32"
  \<comment> \<open>90000000 / 232, reduced\<close>
  using round_to_eval[of 18 "11250000 / 29" 24 12413793] by (simp add: to_float_def)

lemma float_2230000000: "to_float 2230000000 = 2230000128"
  using round_to_tie[of 31 2230000000 24 8710937] by (simp add: to_float_def)

lemma float_2230000128_232: "to_float (278750016 / 29) = 9612070"
  \<comment> \<open>2230000128 / 232, reduced\<close>
  using round_to_eval[of 23 "278750016 / 29" 24 9612070] by (simp add: to_float_def)

lemma initTableNegatives_below_floor:
  "initTableNegatives K0 rev engine1 [47089]
     = Some (engine1\<lparr>negatives := rev (replicate 9999999 0)\<rparr>) \<and>
   count_list (rev (replicate 9999999 0)) (0 :: int) = 9999999 \<and>
   nat \<lfloor>sqrt (real_of_int (sint ([47089 :: int64] ! 0)))
          * real_of_int (NEGATIVE_TABLE_SIZE K0)
          / (\<Sum>c\<leftarrow>[47089 :: int64]. sqrt (real_of_int (sint c)))\<rfloor> = 10000000"
  by (simp add: initTableNegatives_def pow_half_def table_bound_def fdiv_def push_loop_replicate
        exact_roundings sqrt_squares float_2170000000 float_2169999872_217
        count_list_rev count_list_replicate K0_def engine1_def)

lemma initTableNegatives_above_floor:
  "initTableNegatives K0 rev engine1 [81, 49729]
     = Some (engine1\<lparr>negatives := rev (replicate 387932 0 @ replicate 9612070 1)\<rparr>) \<and>
   count_list (rev (replicate 387932 0 @ replicate 9612070 1)) (1 :: int) = 9612070 \<and>
   nat \<lfloor>sqrt (real_of_int (sint ([81, 49729 :: int64] ! 1)))
          * real_of_int (NEGATIVE_TABLE_SIZE K0)
          / (\<Sum>c\<leftarrow>[81, 49729 :: int64]. sqrt (real_of_int (sint c)))\<rfloor> = 9612068"
  by (simp add: initTableNegatives_def pow_half_def table_bound_def fdiv_def push_loop_replicate
        exact_roundings sqrt_squares float_90000000 float_90000000_232 float_2230000000
        float_2230000128_232 count_list_rev count_list_replicate K0_def engine1_def)

text \<open>
  With the counts 1 and 2 the steps of the program are: \<open>sqrt 2\<close> as a \<^verbatim>\<open>double\<close>,
  \<open>z = 2.4142136573791504\<close>, \<open>c = 1.4142135381698608\<close>, the product 14142135 and the
  quotient 5857864. Class 1 occurs 5857864 times: here the floor of the exact quotient
  5857864.37..., where the ceiling is 5857865. Class 0, with the rounded quotient 4142135.5,
  occurs 4142136 times.
\<close>

lemma sqrt2_double_bounds:
  "12738103345051545 / 9007199254740992 < sqrt 2" "sqrt 2 < 12738103345051547 / 9007199254740992"
proof -
  have "(12738103345051545 / 9007199254740992)\<^sup>2 < (2::real)" by (simp add: power2_eq_square)
  then show "12738103345051545 / 9007199254740992 < sqrt 2" by (rule real_less_rsqrt)
  have "(2::real) < (12738103345051547 / 9007199254740992)\<^sup>2" by (simp add: power2_eq_square)
  then show "sqrt 2 < 12738103345051547 / 9007199254740992" by (intro real_less_lsqrt) simp_all
qed

lemma double_sqrt2: "to_double (sqrt 2) = 6369051672525773 / 4503599627370496"
proof -
  let ?s = "sqrt 2 :: real"
  from sqrt2_double_bounds
  have b: "12738103345051545 / 9007199254740992 < ?s" "?s < 12738103345051547 / 9007199254740992"
    by simp_all
  then have "2 powi 0 \<le> \<bar>?s\<bar>" and "\<bar>?s\<bar> < 2 powi (0 + 1)" by simp_all
  moreover from b have "\<bar>?s * 4503599627370496 - 6369051672525773\<bar> < 1 / 2" by linarith
  then have "\<bar>?s / 2 powi (0 - int 53 + 1) - real_of_int 6369051672525773\<bar> < 1 / 2"
    by (simp add: power_int_minus divide_simps)
  ultimately show ?thesis
    using round_to_eval[of 0 ?s 53 6369051672525773]
    by (simp add: to_double_def power_int_minus)
qed

lemma double_1_sqrt2:
  "to_double (10872651299896269 / 4503599627370496) = 2718162824974067 / 1125899906842624"
  using round_to_tie[of 1 "10872651299896269 / 4503599627370496" 53 5436325649948134]
  by (simp add: to_double_def)

lemma float_z_1_2: "to_float (2718162824974067 / 1125899906842624) = 5062973 / 2097152"
  using round_to_eval[of 1 "2718162824974067 / 1125899906842624" 24 10125946]
  by (simp add: to_float_def)

lemma float_sqrt2: "to_float (6369051672525773 / 4503599627370496) = 11863283 / 8388608"
  using round_to_eval[of 0 "6369051672525773 / 4503599627370496" 24 11863283]
  by (simp add: to_float_def)

lemma float_prod_1_2: "to_float (926818984375 / 65536) = 14142135"
  using round_to_eval[of 23 "926818984375 / 65536" 24 14142135] by (simp add: to_float_def)

lemma float_q1_1_2: "to_float (29658206699520 / 5062973) = 5857864"
  using round_to_eval[of 22 "29658206699520 / 5062973" 24 11715728] by (simp add: to_float_def)

lemma float_q0_1_2: "to_float (20971520000000 / 5062973) = 8284271 / 2"
  using round_to_eval[of 21 "20971520000000 / 5062973" 24 16568542] by (simp add: to_float_def)

lemma z_1_2: "z_loop [1, 2] 0 = Some (5062973 / 2097152)"
  by (simp add: pow_half_def exact_roundings double_sqrt2 double_1_sqrt2 float_z_1_2)

lemma sqrt2_bounds: "14142135 / 10000000 < sqrt 2" "sqrt 2 < 14142136 / 10000000"
proof -
  have "(14142135 / 10000000)\<^sup>2 < (2::real)" by (simp add: power2_eq_square)
  then show "14142135 / 10000000 < sqrt 2" by (rule real_less_rsqrt)
  have "(2::real) < (14142136 / 10000000)\<^sup>2" by (simp add: power2_eq_square)
  then show "sqrt 2 < 14142136 / 10000000" by (intro real_less_lsqrt) simp_all
qed

lemma quotient_1_2: "\<lfloor>sqrt 2 * 10000000 / (1 + sqrt 2)\<rfloor> = 5857864"
proof -
  let ?s = "sqrt 2 :: real"
  from sqrt2_bounds have b: "14142135 / 10000000 < ?s" "?s < 14142136 / 10000000" by simp_all
  then have pos: "0 < 1 + ?s" by simp
  from b have "5857864 * (1 + ?s) \<le> ?s * 10000000" "?s * 10000000 < 5857865 * (1 + ?s)"
    by simp_all
  with pos have "5857864 \<le> ?s * 10000000 / (1 + ?s)" "?s * 10000000 / (1 + ?s) < 5857865"
    by (simp_all add: pos_le_divide_eq pos_divide_less_eq)
  then show ?thesis by (simp add: floor_eq_iff)
qed

lemma initTableNegatives_at_floor:
  "initTableNegatives K0 rev engine1 [1, 2]
     = Some (engine1\<lparr>negatives := rev (replicate 4142136 0 @ replicate 5857864 1)\<rparr>) \<and>
   count_list (rev (replicate 4142136 0 @ replicate 5857864 1)) (1 :: int) = 5857864 \<and>
   nat \<lfloor>sqrt (real_of_int (sint ([1, 2 :: int64] ! 1)))
          * real_of_int (NEGATIVE_TABLE_SIZE K0)
          / (\<Sum>c\<leftarrow>[1, 2 :: int64]. sqrt (real_of_int (sint c)))\<rfloor> = 5857864"
proof -
  have "initTableNegatives K0 rev engine1 [1, 2]
     = Some (engine1\<lparr>negatives := rev (replicate 4142136 0 @ replicate 5857864 1)\<rparr>)"
    by (simp add: initTableNegatives_def pow_half_def table_bound_def fdiv_def push_loop_replicate
          exact_roundings double_sqrt2 double_1_sqrt2 float_z_1_2 float_sqrt2 float_prod_1_2
          float_q1_1_2 float_q0_1_2 K0_def engine1_def)
  moreover have "count_list (rev (replicate 4142136 0 @ replicate 5857864 1)) (1 :: int) = 5857864"
    by (simp add: count_list_rev count_list_replicate)
  moreover have "nat \<lfloor>sqrt (real_of_int (sint ([1, 2 :: int64] ! 1)))
          * real_of_int (NEGATIVE_TABLE_SIZE K0)
          / (\<Sum>c\<leftarrow>[1, 2 :: int64]. sqrt (real_of_int (sint c)))\<rfloor> = 5857864"
    using quotient_1_2 by (simp add: K0_def)
  ultimately show ?thesis by simp
qed

subsection \<open>The Huffman tree\<close>

lemma tree5_built:
  "Option.bind (counts_loop [32, 16, 8, 4, 2, 1] [0 ..< 6] (replicate 11 node0)) (build_loop 6 6 5 6)
   = Some tree5"
  by code_simp

lemma tree5_paths:
  "paths_loop tree5 6 [0 ..< 6] [] []
   = Some ([[4], [3, 4], [2, 3, 4], [1, 2, 3, 4], [0, 1, 2, 3, 4], [0, 1, 2, 3, 4]],
           [[True], [True, False], [True, False, False],
            [True, False, False, False], [True, False, False, False, False],
            [False, False, False, False, False]])"
  by code_simp

lemma ex5: "buildTree engine5 [32, 16, 8, 4, 2, 1] = Some engine5_built"
proof -
  have "osz engine5 = 6" "paths engine5 = []" "codes engine5 = []"
    by (simp_all add: engine5_def engine1_def)
  moreover from tree5_built obtain t1 where
    "counts_loop [32, 16, 8, 4, 2, 1] [0 ..< 6] (replicate 11 node0) = Some t1"
    "build_loop 6 6 5 6 t1 = Some tree5"
    by (auto split: Option.bind_splits)
  ultimately show ?thesis using tree5_paths
    by (simp add: buildTree_def engine5_built_def)
qed

lemma modify_Some:
  "0 \<le> i \<Longrightarrow> i < int (length t) \<Longrightarrow> modify t i f = Some (t[nat i := f (t ! nat i)])"
  by (simp add: modify_def nth_chk_def upd_chk_def)

lemma link_fields:
  assumes "0 \<le> i" "i < int (length t)" "0 \<le> m0" "m0 < int (length t)"
    "0 \<le> m1" "m1 < int (length t)" "m0 \<noteq> m1" "m0 \<noteq> i" "m1 \<noteq> i"
  shows "\<exists>t'. link t i m0 m1 = Some t' \<and> length t' = length t \<and>
           (\<forall>k. 0 \<le> k \<and> k < int (length t) \<longrightarrow>
              left (t' ! nat k) = (if k = i then m0 else left (t ! nat k)) \<and>
              right (t' ! nat k) = (if k = i then m1 else right (t ! nat k)) \<and>
              parent (t' ! nat k) = (if k = m0 \<or> k = m1 then i else parent (t ! nat k)) \<and>
              binary (t' ! nat k) = (if k = m1 then True else binary (t ! nat k)) \<and>
              (k \<noteq> i \<longrightarrow> count (t' ! nat k) = count (t ! nat k)))"
  using assms
  by (simp add: link_def modify_Some nth_chk_def nth_list_update eq_nat_nat_iff)

lemma pick_step:
  assumes len: "int (length t) = 2 * sz - 1" and i: "sz \<le> i" "i < 2 * sz - 1"
    and leaf: "- 1 \<le> leaf" "leaf < sz" and node: "sz \<le> node" "node \<le> i"
    and bal: "leaf = - 1 \<longrightarrow> node < i"
    and small: "\<forall>k. 0 \<le> k \<and> k < sz \<longrightarrow> count (t ! nat k) <s 1000000000000000"
    and fresh: "\<forall>k. i \<le> k \<and> k < 2 * sz - 1 \<longrightarrow> count (t ! nat k) = 1000000000000000"
  shows "\<exists>m leaf' node'. pick t leaf node = Some (m, leaf', node') \<and> 0 \<le> m \<and> m < i \<and>
           ((m = leaf \<and> leaf' = leaf - 1 \<and> node' = node \<and> 0 \<le> leaf) \<or>
            (m = node \<and> leaf' = leaf \<and> node' = node + 1 \<and> node < i))"
proof (cases "0 \<le> leaf")
  case False
  with leaf bal have "node < i" by simp
  with False node leaf show ?thesis by (simp add: pick_def)
next
  case True
  with leaf node i len have rd: "nth_chk t leaf = Some (t ! nat leaf)" "nth_chk t node = Some (t ! nat node)"
    by (simp_all add: nth_chk_def)
  show ?thesis
  proof (cases "count (t ! nat leaf) <s count (t ! nat node)")
    case lt: True
    with True rd leaf i show ?thesis by (simp add: pick_def)
  next
    case ge: False
    have "node \<noteq> i"
    proof
      assume "node = i"
      with fresh i have "count (t ! nat node) = 1000000000000000" by simp
      moreover from small True leaf have "count (t ! nat leaf) <s 1000000000000000" by simp
      ultimately show False using ge by simp
    qed
    with node have "node < i" by simp
    with True rd ge node leaf show ?thesis by (simp add: pick_def)
  qed
qed

lemma counts_loop_result:
  assumes "\<forall>i \<in> set is. i < length t \<and> i < length counts"
  shows "\<exists>t'. counts_loop counts is t = Some t' \<and> length t' = length t \<and>
           (\<forall>k < length t. t' ! k = (if k \<in> set is then (t ! k)\<lparr>count := counts ! k\<rparr> else t ! k))"
  using assms
proof (induction "is" arbitrary: t)
  case Nil
  show ?case by simp
next
  case (Cons i "is")
  let ?t1 = "t[i := (t ! i)\<lparr>count := counts ! i\<rparr>]"
  from Cons.prems have i: "i < length t" "i < length counts" by simp_all
  then have m: "modify t (int i) (\<lambda>n. n\<lparr>count := counts ! i\<rparr>) = Some ?t1"
    by (simp add: modify_Some)
  from Cons.prems have "\<forall>i \<in> set is. i < length ?t1 \<and> i < length counts" by simp
  from Cons.IH[OF this] obtain t' where
    r: "counts_loop counts is ?t1 = Some t'" "length t' = length t"
    and f: "\<And>k. k < length t \<Longrightarrow>
              t' ! k = (if k \<in> set is then (?t1 ! k)\<lparr>count := counts ! k\<rparr> else ?t1 ! k)"
    by auto
  from i m r(1) have "counts_loop counts (i # is) t = Some t'" by (simp add: nth_chk_def)
  moreover have "t' ! k = (if k \<in> set (i # is) then (t ! k)\<lparr>count := counts ! k\<rparr> else t ! k)"
    if "k < length t" for k
    using f[OF that] that by (cases "k = i") (simp_all add: nth_list_update)
  ultimately show ?case using r(2) by blast
qed

lemma pick_cursors:
  assumes len: "int (length t) = 2 * sz - 1" and i: "sz \<le> i" "i < 2 * sz - 1"
    and cur: "cursors sz i c leaf node" and c: "c = 0 \<or> c = 1"
    and small: "\<forall>k. 0 \<le> k \<and> k < sz \<longrightarrow> count (t ! nat k) <s 1000000000000000"
    and fresh: "\<forall>k. i \<le> k \<and> k < 2 * sz - 1 \<longrightarrow> count (t ! nat k) = 1000000000000000"
  shows "\<exists>m leaf' node'. pick t leaf node = Some (m, leaf', node') \<and> 0 \<le> m \<and> m < i \<and>
           \<not> consumed sz leaf node m \<and>
           (\<forall>k. consumed sz leaf' node' k \<longleftrightarrow> consumed sz leaf node k \<or> k = m) \<and>
           cursors sz i (c + 1) leaf' node'"
proof -
  from cur have leaf: "- 1 \<le> leaf" "leaf < sz" and node: "sz \<le> node" "node \<le> i"
    and eq: "node = 2 * (i - sz) + leaf + 1 + c"
    by (simp_all add: cursors_def)
  from eq c i have bal: "leaf = - 1 \<longrightarrow> node < i" by auto
  from pick_step[OF len i leaf node bal small fresh] obtain m leaf' node' where
    p: "pick t leaf node = Some (m, leaf', node')" "0 \<le> m" "m < i"
    and d: "(m = leaf \<and> leaf' = leaf - 1 \<and> node' = node \<and> 0 \<le> leaf) \<or>
            (m = node \<and> leaf' = leaf \<and> node' = node + 1 \<and> node < i)"
    by blast
  from d leaf node have "\<not> consumed sz leaf node m" by (auto simp: consumed_def)
  moreover from d leaf node have "\<forall>k. consumed sz leaf' node' k \<longleftrightarrow> consumed sz leaf node k \<or> k = m"
    by (auto simp: consumed_def)
  moreover from d leaf node eq have "cursors sz i (c + 1) leaf' node'"
    by (auto simp: cursors_def)
  ultimately show ?thesis using p by blast
qed

lemma build_step:
  assumes inv: "build_inv sz i leaf node t" and lt: "i < 2 * sz - 1"
  shows "\<exists>m0 leaf1 node1 m1 leaf2 node2 t'.
           pick t leaf node = Some (m0, leaf1, node1) \<and>
           pick t leaf1 node1 = Some (m1, leaf2, node2) \<and>
           link t i m0 m1 = Some t' \<and>
           build_inv sz (i + 1) leaf2 node2 t'"
proof -
  from inv have len: "int (length t) = 2 * sz - 1" and i: "sz \<le> i"
    and cur0: "cursors sz i 0 leaf node"
    and small: "\<forall>k. 0 \<le> k \<and> k < sz \<longrightarrow> count (t ! nat k) <s 1000000000000000"
    and fresh: "\<forall>k. i \<le> k \<and> k < 2 * sz - 1 \<longrightarrow> count (t ! nat k) = 1000000000000000"
    and str: "\<And>k. 0 \<le> k \<Longrightarrow> k < 2 * sz - 1 \<Longrightarrow>
               (if consumed sz leaf node k then linked t sz i k
                else parent (t ! nat k) = - 1 \<and> \<not> binary (t ! nat k))"
    by (simp_all add: build_inv_def)
  from pick_cursors[OF len i lt cur0 _ small fresh] obtain m0 leaf1 node1 where
    p0: "pick t leaf node = Some (m0, leaf1, node1)" and m0: "0 \<le> m0" "m0 < i"
    and n0: "\<not> consumed sz leaf node m0"
    and c0: "\<And>k. consumed sz leaf1 node1 k \<longleftrightarrow> consumed sz leaf node k \<or> k = m0"
    and cur1: "cursors sz i 1 leaf1 node1"
    by auto
  from pick_cursors[OF len i lt cur1 _ small fresh] obtain m1 leaf2 node2 where
    p1: "pick t leaf1 node1 = Some (m1, leaf2, node2)" and m1: "0 \<le> m1" "m1 < i"
    and n1: "\<not> consumed sz leaf1 node1 m1"
    and c1: "\<And>k. consumed sz leaf2 node2 k \<longleftrightarrow> consumed sz leaf1 node1 k \<or> k = m1"
    and cur2: "cursors sz i 2 leaf2 node2"
    by auto
  from n1 c0 have ne: "m0 \<noteq> m1" and n1': "\<not> consumed sz leaf node m1" by auto
  from c0 c1 have cons: "\<And>k. consumed sz leaf2 node2 k \<longleftrightarrow> consumed sz leaf node k \<or> k = m0 \<or> k = m1"
    by auto
  from i lt len m0 m1 have rng: "0 \<le> i" "i < int (length t)" "m0 < int (length t)" "m1 < int (length t)"
    "m0 \<noteq> i" "m1 \<noteq> i"
    by simp_all
  from link_fields[OF rng(1,2) m0(1) rng(3) m1(1) rng(4) ne rng(5,6)] obtain t' where
    l: "link t i m0 m1 = Some t'" and len': "length t' = length t"
    and fl: "\<And>k. 0 \<le> k \<Longrightarrow> k < int (length t) \<Longrightarrow>
               left (t' ! nat k) = (if k = i then m0 else left (t ! nat k))"
    and fr: "\<And>k. 0 \<le> k \<Longrightarrow> k < int (length t) \<Longrightarrow>
               right (t' ! nat k) = (if k = i then m1 else right (t ! nat k))"
    and fp: "\<And>k. 0 \<le> k \<Longrightarrow> k < int (length t) \<Longrightarrow>
               parent (t' ! nat k) = (if k = m0 \<or> k = m1 then i else parent (t ! nat k))"
    and fb: "\<And>k. 0 \<le> k \<Longrightarrow> k < int (length t) \<Longrightarrow>
               binary (t' ! nat k) = (if k = m1 then True else binary (t ! nat k))"
    and fc: "\<And>k. 0 \<le> k \<Longrightarrow> k < int (length t) \<Longrightarrow> k \<noteq> i \<Longrightarrow>
               count (t' ! nat k) = count (t ! nat k)"
    by blast
  have small': "\<forall>k. 0 \<le> k \<and> k < sz \<longrightarrow> count (t' ! nat k) <s 1000000000000000"
    using small fc i len lt by simp
  have fresh': "\<forall>k. i + 1 \<le> k \<and> k < 2 * sz - 1 \<longrightarrow> count (t' ! nat k) = 1000000000000000"
    using fresh fc i len by simp
  have cur': "cursors sz (i + 1) 0 leaf2 node2" "node2 < i + 1 \<or> i + 1 = sz"
    using cur2 by (simp_all add: cursors_def)
  have str': "if consumed sz leaf2 node2 k then linked t' sz (i + 1) k
              else parent (t' ! nat k) = - 1 \<and> \<not> binary (t' ! nat k)"
    if k: "0 \<le> k" "k < 2 * sz - 1" for k
  proof -
    from k len have kr: "k < int (length t)" by simp
    consider "k = m0" | "k = m1" | "k \<noteq> m0" "k \<noteq> m1" "consumed sz leaf node k"
      | "k \<noteq> m0" "k \<noteq> m1" "\<not> consumed sz leaf node k"
      by blast
    then show ?thesis
    proof cases
      case 1
      from str[OF m0(1)] m0(2) lt n0 have "\<not> binary (t ! nat m0)" by simp
      with 1 ne m0 i rng fp[OF m0(1) rng(3)] fb[OF m0(1) rng(3)] fl[OF rng(1,2)]
      show ?thesis by (simp add: cons linked_def)
    next
      case 2
      with ne m1 i rng fp[OF m1(1) rng(4)] fb[OF m1(1) rng(4)] fr[OF rng(1,2)]
      show ?thesis by (simp add: cons linked_def)
    next
      case 3
      from str[OF k] 3(3) have lk: "linked t sz i k" by simp
      let ?p = "parent (t ! nat k)"
      from lk have p: "k < ?p" "sz \<le> ?p" "?p < i" by (simp_all add: linked_def)
      with k rng have pr: "0 \<le> ?p" "?p < int (length t)" "?p \<noteq> i" by simp_all
      from 3 fp[OF k(1) kr] fb[OF k(1) kr] have same: "parent (t' ! nat k) = ?p"
        "binary (t' ! nat k) = binary (t ! nat k)" by simp_all
      from fl[OF pr(1,2)] fr[OF pr(1,2)] pr(3) have ch: "left (t' ! nat ?p) = left (t ! nat ?p)"
        "right (t' ! nat ?p) = right (t ! nat ?p)" by simp_all
      from lk p show ?thesis by (simp add: cons 3 linked_def same ch)
    next
      case 4
      from str[OF k] 4(3) have "parent (t ! nat k) = - 1" "\<not> binary (t ! nat k)" by simp_all
      with 4 fp[OF k(1) kr] fb[OF k(1) kr] show ?thesis by (simp add: cons)
    qed
  qed
  from len len' i lt small' fresh' cur' str' have "build_inv sz (i + 1) leaf2 node2 t'"
    by (simp add: build_inv_def)
  with p0 p1 l show ?thesis by blast
qed

lemma build_loop_inv:
  "build_inv sz i leaf node t \<Longrightarrow>
   \<exists>t' leaf' node'. build_loop sz i leaf node t = Some t' \<and>
      build_inv sz (2 * sz - 1) leaf' node' t'"
proof (induction "nat (2 * sz - 1 - i)" arbitrary: i leaf node t)
  case 0
  then have "i = 2 * sz - 1" by (simp add: build_inv_def)
  with "0.prems" show ?case by (subst build_loop.simps) auto
next
  case (Suc n)
  then have lt: "i < 2 * sz - 1" by simp
  from build_step[OF Suc.prems lt] obtain m0 leaf1 node1 m1 leaf2 node2 t' where
    s: "pick t leaf node = Some (m0, leaf1, node1)" "pick t leaf1 node1 = Some (m1, leaf2, node2)"
       "link t i m0 m1 = Some t'"
    and inv': "build_inv sz (i + 1) leaf2 node2 t'"
    by blast
  from Suc.hyps(2) have "n = nat (2 * sz - 1 - (i + 1))" by simp
  from Suc.hyps(1)[OF this inv'] obtain t'' leaf' node' where
    r: "build_loop sz (i + 1) leaf2 node2 t' = Some t''" "build_inv sz (2 * sz - 1) leaf' node' t''"
    by blast
  from lt s r(1) have "build_loop sz i leaf node t = Some t''"
    by (subst build_loop.simps) simp
  with r(2) show ?case by blast
qed

lemma build_inv_final:
  assumes "build_inv sz (2 * sz - 1) leaf node t" and "1 \<le> sz"
  shows "huffman sz t"
proof -
  from assms(1) have len: "int (length t) = 2 * sz - 1"
    and cur: "cursors sz (2 * sz - 1) 0 leaf node" and d: "node < 2 * sz - 1 \<or> 2 * sz - 1 = sz"
    and str: "\<And>k. 0 \<le> k \<Longrightarrow> k < 2 * sz - 1 \<Longrightarrow>
               (if consumed sz leaf node k then linked t sz (2 * sz - 1) k
                else parent (t ! nat k) = - 1 \<and> \<not> binary (t ! nat k))"
    by (simp_all add: build_inv_def)
  from cur d assms(2) have c: "leaf = - 1 \<and> node = 2 * sz - 2 \<and> 2 \<le> sz \<or> sz = 1 \<and> leaf = 0 \<and> node = 1"
    by (auto simp: cursors_def)
  have "linked t sz (2 * sz - 1) k" if "0 \<le> k" "k < 2 * sz - 2" for k
  proof -
    from c that have "consumed sz leaf node k" by (auto simp: consumed_def)
    with str[of k] that show ?thesis by simp
  qed
  moreover from c assms(2) have "\<not> consumed sz leaf node (2 * sz - 2)"
    by (auto simp: consumed_def)
  with str[of "2 * sz - 2"] assms(2) have "parent (t ! nat (2 * sz - 2)) = - 1" by simp
  ultimately show ?thesis using len by (simp add: huffman_def)
qed

lemma init_inv:
  assumes "1 \<le> sz" and "int (length counts) = sz"
    and "\<forall>c \<in> set counts. c <s 1000000000000000"
  shows "\<exists>t1. counts_loop counts [0 ..< nat sz] (replicate (nat (2 * sz - 1)) node0) = Some t1 \<and>
           build_inv sz sz (sz - 1) sz t1"
proof -
  let ?t0 = "replicate (nat (2 * sz - 1)) node0"
  from assms(1,2) have "\<forall>i \<in> set [0 ..< nat sz]. i < length ?t0 \<and> i < length counts"
    by auto
  from counts_loop_result[OF this] obtain t1 where
    r: "counts_loop counts [0 ..< nat sz] ?t0 = Some t1" and len: "length t1 = length ?t0"
    and f: "\<And>k. k < length ?t0 \<Longrightarrow>
              t1 ! k = (if k \<in> set [0 ..< nat sz] then (?t0 ! k)\<lparr>count := counts ! k\<rparr> else ?t0 ! k)"
    by blast
  have el: "t1 ! nat k = (if k < sz then node0\<lparr>count := counts ! nat k\<rparr> else node0)"
    if "0 \<le> k" "k < 2 * sz - 1" for k
    using f[of "nat k"] that by auto
  have "count (t1 ! nat k) <s 1000000000000000" if "0 \<le> k" "k < sz" for k
  proof -
    from that assms(2) have "counts ! nat k \<in> set counts" by simp
    with assms(3) el[of k] that assms(1) show ?thesis by simp
  qed
  moreover have "count (t1 ! nat k) = 1000000000000000" if "sz \<le> k" "k < 2 * sz - 1" for k
    using el[of k] that assms(1) by (simp add: node0_def)
  moreover have "parent (t1 ! nat k) = - 1 \<and> \<not> binary (t1 ! nat k)" if "0 \<le> k" "k < 2 * sz - 1" for k
    using el[OF that] by (simp add: node0_def)
  moreover have "\<not> consumed sz (sz - 1) sz k" for k by (simp add: consumed_def)
  moreover have "cursors sz sz 0 (sz - 1) sz" using assms(1) by (simp add: cursors_def)
  moreover from len assms(1) have "int (length t1) = 2 * sz - 1" by simp
  ultimately have "build_inv sz sz (sz - 1) sz t1" using assms(1) by (simp add: build_inv_def)
  with r show ?thesis by blast
qed

lemma descend_snoc:
  "length ps = length bs \<Longrightarrow>
   descend t sz n (ps @ [p]) (bs @ [b]) =
     do { m \<leftarrow> descend t sz n ps bs;
          if m = p + sz
          then do { nd \<leftarrow> nth_chk t m; Some (if b then right nd else left nd) }
          else None }"
proof (induction ps bs arbitrary: n rule: list_induct2)
  case Nil
  show ?case by simp
next
  case (Cons q ps c bs)
  show ?case
  proof (cases "n = q + sz")
    case False
    then show ?thesis by simp
  next
    case True
    show ?thesis
    proof (cases "nth_chk t n")
      case None
      with True show ?thesis by simp
    next
      case (Some nd)
      with True Cons.IH show ?thesis by simp
    qed
  qed
qed

lemma path_loop_huffman:
  assumes H: "huffman sz t" and sz: "1 \<le> sz"
  shows "0 \<le> j \<Longrightarrow> j < 2 * sz - 1 \<Longrightarrow>
         \<exists>ps bs. path_loop t sz j path code = Some (path @ ps, code @ bs) \<and>
           length ps = length bs \<and> int (length ps) \<le> 2 * sz - 2 - max j (sz - 1) \<and>
           descend t sz (2 * sz - 2) (rev ps) (rev bs) = Some j"
proof (induction "nat (2 * sz - 2 - j)" arbitrary: j path code rule: less_induct)
  case less
  from H have len: "int (length t) = 2 * sz - 1"
    and lk: "\<And>k. 0 \<le> k \<Longrightarrow> k < 2 * sz - 2 \<Longrightarrow> linked t sz (2 * sz - 1) k"
    and root: "parent (t ! nat (2 * sz - 2)) = - 1"
    by (simp_all add: huffman_def)
  from less.prems len have rd: "nth_chk t j = Some (t ! nat j)" by (simp add: nth_chk_def)
  show ?case
  proof (cases "j = 2 * sz - 2")
    case True
    with rd root have "path_loop t sz j path code = Some (path, code)"
      by (subst path_loop.simps) simp
    with True sz show ?thesis by simp
  next
    case False
    with less.prems have j: "j < 2 * sz - 2" by simp
    let ?p = "parent (t ! nat j)" and ?b = "binary (t ! nat j)"
    from lk[OF less.prems(1) j] have p: "j < ?p" "sz \<le> ?p" "?p < 2 * sz - 1"
      and ch: "(if ?b then right (t ! nat ?p) else left (t ! nat ?p)) = j"
      by (auto simp: linked_def)
    from p sz have p0: "0 \<le> ?p" "?p \<noteq> - 1" by simp_all
    from p less.prems have "nat (2 * sz - 2 - ?p) < nat (2 * sz - 2 - j)" by simp
    from less.hyps[OF this p0(1) p(3), of "path @ [?p - sz]" "code @ [?b]"]
    obtain ps bs where
      r: "path_loop t sz ?p (path @ [?p - sz]) (code @ [?b])
          = Some ((path @ [?p - sz]) @ ps, (code @ [?b]) @ bs)"
      and l: "length ps = length bs" "int (length ps) \<le> 2 * sz - 2 - max ?p (sz - 1)"
      and d: "descend t sz (2 * sz - 2) (rev ps) (rev bs) = Some ?p"
      by blast
    from rd p0(2) r have "path_loop t sz j path code
        = Some (path @ ((?p - sz) # ps), code @ (?b # bs))"
      by (subst path_loop.simps) simp
    moreover from l have "length ((?p - sz) # ps) = length (?b # bs)" by simp
    moreover from l(2) p have "int (length ((?p - sz) # ps)) \<le> 2 * sz - 2 - max j (sz - 1)"
      by simp
    moreover have "descend t sz (2 * sz - 2) (rev ((?p - sz) # ps)) (rev (?b # bs)) = Some j"
    proof -
      from p0 p len have "nth_chk t ?p = Some (t ! nat ?p)" by (simp add: nth_chk_def)
      with d ch l(1) show ?thesis by (simp add: descend_snoc)
    qed
    ultimately show ?thesis by blast
  qed
qed

lemma paths_loop_huffman:
  assumes H: "huffman sz t" and sz: "1 \<le> sz"
  shows "\<forall>i \<in> set is. int i < sz \<Longrightarrow>
         \<exists>ps' cs'. paths_loop t sz is ps cs = Some (ps @ ps', cs @ cs') \<and>
           length ps' = length is \<and> length cs' = length is \<and>
           (\<forall>k < length is.
              length (ps' ! k) = length (cs' ! k) \<and> int (length (ps' ! k)) \<le> sz - 1 \<and>
              descend t sz (2 * sz - 2) (rev (ps' ! k)) (rev (cs' ! k)) = Some (int (is ! k)))"
proof (induction "is" arbitrary: ps cs)
  case Nil
  show ?case by simp
next
  case (Cons i "is")
  from Cons.prems sz have i: "0 \<le> int i" "int i < 2 * sz - 1" "int i < sz" by simp_all
  from path_loop_huffman[OF H sz i(1,2), of "[]" "[]"] obtain p c where
    w: "path_loop t sz (int i) [] [] = Some (p, c)" and l: "length p = length c"
    and b: "int (length p) \<le> 2 * sz - 2 - max (int i) (sz - 1)"
    and d: "descend t sz (2 * sz - 2) (rev p) (rev c) = Some (int i)"
    by auto
  from b i(3) have b': "int (length p) \<le> sz - 1" by simp
  from Cons.prems have "\<forall>i \<in> set is. int i < sz" by simp
  from Cons.IH[OF this, of "ps @ [p]" "cs @ [c]"] obtain ps' cs' where
    r: "paths_loop t sz is (ps @ [p]) (cs @ [c]) = Some ((ps @ [p]) @ ps', (cs @ [c]) @ cs')"
    and n: "length ps' = length is" "length cs' = length is"
    and a: "\<And>k. k < length is \<Longrightarrow>
              length (ps' ! k) = length (cs' ! k) \<and> int (length (ps' ! k)) \<le> sz - 1 \<and>
              descend t sz (2 * sz - 2) (rev (ps' ! k)) (rev (cs' ! k)) = Some (int (is ! k))"
    by blast
  from w r have "paths_loop t sz (i # is) ps cs = Some (ps @ (p # ps'), cs @ (c # cs'))"
    by simp
  moreover from n have "length (p # ps') = length (i # is)" "length (c # cs') = length (i # is)"
    by simp_all
  moreover have "length ((p # ps') ! k) = length ((c # cs') ! k) \<and>
      int (length ((p # ps') ! k)) \<le> sz - 1 \<and>
      descend t sz (2 * sz - 2) (rev ((p # ps') ! k)) (rev ((c # cs') ! k))
        = Some (int ((i # is) ! k))"
    if "k < length (i # is)" for k
  proof (cases k)
    case 0
    with l b' d show ?thesis by simp
  next
    case (Suc k')
    with that a[of k'] show ?thesis by simp
  qed
  ultimately show ?case by blast
qed

lemma buildTree_result:
  assumes "osz st = int (length counts)" and "counts \<noteq> []" and "length counts < 2 ^ 30"
    and "\<forall>c \<in> set counts. c <s 1000000000000000"
  shows "\<exists>t ps cs. buildTree st counts
             = Some (st\<lparr>tree := t, paths := paths st @ ps, codes := codes st @ cs\<rparr>) \<and>
           huffman (osz st) t \<and> length ps = length counts \<and> length cs = length counts \<and>
           (\<forall>k < length counts.
              length (ps ! k) = length (cs ! k) \<and> length (ps ! k) \<le> length counts - 1 \<and>
              descend t (osz st) (2 * osz st - 2) (rev (ps ! k)) (rev (cs ! k)) = Some (int k))"
proof -
  let ?sz = "osz st"
  from assms(1,2) have sz: "1 \<le> ?sz" by (cases counts) simp_all
  from assms(1,3) have hi: "?sz < 2 ^ 30" by simp
  from init_inv[OF sz assms(1)[symmetric] assms(4)] obtain t1 where
    c: "counts_loop counts [0 ..< nat ?sz] (replicate (nat (2 * ?sz - 1)) node0) = Some t1"
    and inv: "build_inv ?sz ?sz (?sz - 1) ?sz t1"
    by blast
  from build_loop_inv[OF inv] obtain t leaf node where
    b: "build_loop ?sz ?sz (?sz - 1) ?sz t1 = Some t" and fin: "build_inv ?sz (2 * ?sz - 1) leaf node t"
    by blast
  from build_inv_final[OF fin sz] have H: "huffman ?sz t" .
  have "\<forall>i \<in> set [0 ..< nat ?sz]. int i < ?sz" by auto
  from paths_loop_huffman[OF H sz this, of "paths st" "codes st"] obtain ps cs where
    p: "paths_loop t ?sz [0 ..< nat ?sz] (paths st) (codes st) = Some (paths st @ ps, codes st @ cs)"
    and n: "length ps = length [0 ..< nat ?sz]" "length cs = length [0 ..< nat ?sz]"
    and a: "\<And>k. k < length [0 ..< nat ?sz] \<Longrightarrow>
              length (ps ! k) = length (cs ! k) \<and> int (length (ps ! k)) \<le> ?sz - 1 \<and>
              descend t ?sz (2 * ?sz - 2) (rev (ps ! k)) (rev (cs ! k)) = Some (int ([0 ..< nat ?sz] ! k))"
    by blast
  from sz hi c b p have "buildTree st counts
      = Some (st\<lparr>tree := t, paths := paths st @ ps, codes := codes st @ cs\<rparr>)"
    by (simp add: buildTree_def)
  moreover from n assms(1) have "length ps = length counts" "length cs = length counts" by simp_all
  moreover have "length (ps ! k) = length (cs ! k) \<and> length (ps ! k) \<le> length counts - 1 \<and>
      descend t ?sz (2 * ?sz - 2) (rev (ps ! k)) (rev (cs ! k)) = Some (int k)"
    if "k < length counts" for k
    using a[of k] that assms(1) by auto
  ultimately show ?thesis using H by blast
qed

text \<open>
  C4: after \<open>buildTree\<close> on a fresh engine, for counts below the filler count
  \<open>10\<^sup>1\<^sup>5\<close> of the nodes not yet built, for every class \<open>c\<close> the path and the code
  have the same length, and the walk from the root \<open>2 \<cdot> osz - 2\<close> along the reversed path,
  to the right child on a code bit 1 and to the left child on a code bit 0, ends in
  leaf \<open>c\<close>.
\<close>

theorem buildTree_paths_reach_leaves:
  assumes "osz st = int (length counts)" and "counts \<noteq> []" and "length counts < 2 ^ 30"
    and "\<forall>c \<in> set counts. c <s 1000000000000000"
    and "paths st = []" and "codes st = []"
  shows "\<exists>st'. buildTree st counts = Some st' \<and>
           (\<forall>c < length counts.
              length (paths st' ! c) = length (codes st' ! c) \<and>
              descend (tree st') (osz st') (2 * osz st' - 2)
                (rev (paths st' ! c)) (rev (codes st' ! c)) = Some (int c))"
proof -
  from buildTree_result[OF assms(1-4)] obtain t ps cs where
    b: "buildTree st counts = Some (st\<lparr>tree := t, paths := paths st @ ps, codes := codes st @ cs\<rparr>)"
    and a: "\<And>k. k < length counts \<Longrightarrow>
              length (ps ! k) = length (cs ! k) \<and> length (ps ! k) \<le> length counts - 1 \<and>
              descend t (osz st) (2 * osz st - 2) (rev (ps ! k)) (rev (cs ! k)) = Some (int k)"
    by blast
  from a assms(5,6) have "\<forall>c < length counts.
      length (paths (st\<lparr>tree := t, paths := paths st @ ps, codes := codes st @ cs\<rparr>) ! c)
        = length (codes (st\<lparr>tree := t, paths := paths st @ ps, codes := codes st @ cs\<rparr>) ! c) \<and>
      descend (tree (st\<lparr>tree := t, paths := paths st @ ps, codes := codes st @ cs\<rparr>))
        (osz (st\<lparr>tree := t, paths := paths st @ ps, codes := codes st @ cs\<rparr>))
        (2 * osz (st\<lparr>tree := t, paths := paths st @ ps, codes := codes st @ cs\<rparr>) - 2)
        (rev (paths (st\<lparr>tree := t, paths := paths st @ ps, codes := codes st @ cs\<rparr>) ! c))
        (rev (codes (st\<lparr>tree := t, paths := paths st @ ps, codes := codes st @ cs\<rparr>) ! c))
        = Some (int c)"
    by simp
  with b show ?thesis by blast
qed

lemma counts5: "\<forall>c \<in> set [32, 16, 8, 4, 2, 1 :: int64]. c <s 1000000000000000"
  by (simp add: word_sless_alt)

theorem buildTree_paths_reach_leaves_witness:
  "buildTree engine5 [32, 16, 8, 4, 2, 1] = Some engine5_built \<and>
   length (paths engine5_built ! 3) = length (codes engine5_built ! 3) \<and>
   descend (tree engine5_built) (osz engine5_built) (2 * osz engine5_built - 2)
     (rev (paths engine5_built ! 3)) (rev (codes engine5_built ! 3)) = Some 3"
proof -
  have "osz engine5 = int (length [32, 16, 8, 4, 2, 1 :: int64])" "paths engine5 = []"
    "codes engine5 = []"
    by (simp_all add: engine5_def engine1_def)
  from buildTree_paths_reach_leaves[OF this(1) _ _ counts5 this(2,3)] ex5
  have "\<forall>c < length [32, 16, 8, 4, 2, 1 :: int64].
      length (paths engine5_built ! c) = length (codes engine5_built ! c) \<and>
      descend (tree engine5_built) (osz engine5_built) (2 * osz engine5_built - 2)
        (rev (paths engine5_built ! c)) (rev (codes engine5_built ! c)) = Some (int c)"
    by simp
  then have "length (paths engine5_built ! 3) = length (codes engine5_built ! 3) \<and>
      descend (tree engine5_built) (osz engine5_built) (2 * osz engine5_built - 2)
        (rev (paths engine5_built ! 3)) (rev (codes engine5_built ! 3)) = Some (int 3)"
    by (rule allE[where x = 3]) simp
  with ex5 show ?thesis by simp
qed

text \<open>
  C3, as the code has it: the tree is a Huffman tree, as deep as the counts make it, and
  the paths are bounded by the number of internal nodes: \<open>|paths[c]| \<le> osz - 1\<close>.
\<close>

theorem buildTree_path_length:
  assumes "osz st = int (length counts)" and "counts \<noteq> []" and "length counts < 2 ^ 30"
    and "\<forall>c \<in> set counts. c <s 1000000000000000"
    and "paths st = []" and "codes st = []"
  shows "\<exists>st'. buildTree st counts = Some st' \<and>
           (\<forall>c < length counts. length (paths st' ! c) \<le> length counts - 1)"
proof -
  from buildTree_result[OF assms(1-4)] obtain t ps cs where
    b: "buildTree st counts = Some (st\<lparr>tree := t, paths := paths st @ ps, codes := codes st @ cs\<rparr>)"
    and a: "\<And>k. k < length counts \<Longrightarrow> length (ps ! k) \<le> length counts - 1"
    by blast
  from a assms(5) have "\<forall>c < length counts.
      length (paths (st\<lparr>tree := t, paths := paths st @ ps, codes := codes st @ cs\<rparr>) ! c)
        \<le> length counts - 1"
    by simp
  with b show ?thesis by blast
qed

theorem buildTree_path_length_witness:
  "buildTree engine5 [32, 16, 8, 4, 2, 1] = Some engine5_built \<and>
   length (paths engine5_built ! 5) \<le> length [32, 16, 8, 4, 2, 1 :: int64] - 1"
proof -
  have "osz engine5 = int (length [32, 16, 8, 4, 2, 1 :: int64])" "paths engine5 = []"
    "codes engine5 = []"
    by (simp_all add: engine5_def engine1_def)
  from buildTree_path_length[OF this(1) _ _ counts5 this(2,3)] ex5
  have "\<forall>c < length [32, 16, 8, 4, 2, 1 :: int64].
      length (paths engine5_built ! c) \<le> length [32, 16, 8, 4, 2, 1 :: int64] - 1"
    by simp
  then have "length (paths engine5_built ! 5) \<le> length [32, 16, 8, 4, 2, 1 :: int64] - 1"
    by (rule allE[where x = 5]) simp
  with ex5 show ?thesis by simp
qed

lemma ceiling_log2_6: "\<lceil>log 2 (real (6::nat))\<rceil> = 3"
proof -
  have "log 2 (real (6::nat)) \<le> 3"
    by (subst log_le_iff) simp_all
  moreover have "2 < log 2 (real (6::nat))"
    by (subst less_log_iff) simp_all
  ultimately show ?thesis by (simp add: ceiling_eq_iff)
qed

text \<open>
  C3, as the claim states it, fails: with the six counts 32, 16, 8, 4, 2, 1 the path of
  class 5 has length 5, and \<open>\<lceil>log\<^sub>2 6\<rceil> + 1 = 4\<close>.
\<close>

theorem buildTree_path_length_counterexample:
  "buildTree engine5 [32, 16, 8, 4, 2, 1] = Some engine5_built \<and>
   length (paths engine5_built ! 5) = 5 \<and>
   \<not> int (length (paths engine5_built ! 5))
       \<le> \<lceil>log 2 (real (length [32, 16, 8, 4, 2, 1 :: int64]))\<rceil> + 1"
  using ex5 ceiling_log2_6 by (simp add: engine5_built_def)

end
